theory Spec2Isabelle
  imports Complex_Main
begin

section \<open>Python values shared by the modules\<close>

text \<open>The exceptions of the source that the models below can raise.\<close>

datatype py_error =
  AttributeError | ZeroDivisionError | ValueError | TypeError | TransportException

text \<open>
  What the models take from the Python runtime. A float is identified with the real
  number it denotes; the two operations of the source that round, true division and
  multiplication, are parameters about which nothing is assumed, so that what is proved
  holds for every rounding, that of IEEE doubles included (comparisons are exact;
  infinities and NaN are outside the model). \<open>str.lower\<close> and \<open>str.upper\<close>, which
  follow the Unicode tables, are parameters too.
\<close>

record py_runtime =
  py_div :: "real \<Rightarrow> real \<Rightarrow> real"
  py_mul :: "real \<Rightarrow> real \<Rightarrow> real"
  py_lower :: "string \<Rightarrow> string"
  py_upper :: "string \<Rightarrow> string"

text \<open>\<open>str.lower\<close> and \<open>str.upper\<close> as they are on strings of ASCII characters.\<close>

definition ascii_lower_char :: "char \<Rightarrow> char" where
  "ascii_lower_char c =
     (let n = (of_char c :: nat) in if 65 \<le> n \<and> n \<le> 90 then char_of (n + 32) else c)"

definition ascii_lower :: "string \<Rightarrow> string" where
  "ascii_lower s = map ascii_lower_char s"

definition ascii_upper_char :: "char \<Rightarrow> char" where
  "ascii_upper_char c =
     (let n = (of_char c :: nat) in if 97 \<le> n \<and> n \<le> 122 then char_of (n - 32) else c)"

definition ascii_upper :: "string \<Rightarrow> string" where
  "ascii_upper s = map ascii_upper_char s"

text \<open>\<open>needle in haystack\<close>.\<close>

fun contains :: "string \<Rightarrow> string \<Rightarrow> bool" where
  "contains needle [] = (needle = [])"
| "contains needle (c # cs) =
     (take (length needle) (c # cs) = needle \<or> contains needle cs)"

text \<open>
  The runtime of the examples: exact arithmetic and the ASCII case maps. Python agrees
  with it on the inputs of the examples, whose strings are ASCII and whose numbers are
  whole numbers and eighths far below \<open>2^53\<close> with whole quotients and products, which
  doubles hold exactly.
\<close>

definition plain_runtime :: py_runtime where
  "plain_runtime = \<lparr> py_div = (\<lambda>x y. x / y), py_mul = (\<lambda>x y. x * y),
                      py_lower = ascii_lower, py_upper = ascii_upper \<rparr>"

text \<open>
  Rounding as doubles do it. A double has 53 significant bits, and an operation returns
  the double nearest to its exact result, ties to even: for an exact result \<open>x\<close> with
  \<open>2^(k-1) \<le> |x| < 2^k\<close> that is the multiple of \<open>2^(k-53)\<close> nearest to \<open>x\<close>.
\<close>

definition round_half_even :: "real \<Rightarrow> int" where
  "round_half_even x =
     (let f = \<lfloor>x\<rfloor>; d = x - of_int f
      in if d < 1 / 2 then f else if 1 / 2 < d then f + 1 else if even f then f else f + 1)"

definition nearest_multiple :: "real \<Rightarrow> real \<Rightarrow> real" where
  "nearest_multiple u x = of_int (round_half_even (x / u)) * u"

text \<open>\<open>s.replace(pat, "")\<close>: every occurrence of \<open>pat\<close>, from the left, is removed.\<close>

function remove_all :: "string \<Rightarrow> string \<Rightarrow> string" where
  "remove_all pat [] = []"
| "remove_all pat (c # cs) =
     (if pat \<noteq> [] \<and> take (length pat) (c # cs) = pat
      then remove_all pat (drop (length pat) (c # cs))
      else c # remove_all pat cs)"
  by pat_completeness auto
termination
  by (relation "measure (\<lambda>(pat, s). length s)") (auto simp: neq_Nil_conv)

section \<open>Rate budget gateway (utils/alchemy\_rpc.py, class AlchemyRateLimiter)\<close>

text \<open>
  The limiter object. Times are the values of \<open>time.time()\<close>, the reals that the
  floats of the source denote; the only arithmetic on them is the difference of two
  readings, which doubles compute exactly for readings of the system clock (two positive
  values within a factor of two of each other). \<open>can_request\<close> and \<open>record_request\<close>
  each hold the lock for their whole body, so each is one atomic step on the limiter.
\<close>

record limiter =
  max_rps :: int
  monthly_budget :: int
  cu_used :: int
  window_start :: real
  requests_in_window :: int
  last_log_time :: real

text \<open>
  The world of a caller: the limiter, the number of readings of \<open>time.time()\<close> taken so
  far (the clock is a function \<open>clk\<close> from the index of a reading to its value) and the
  number of \<open>time.sleep(0.05)\<close> calls made so far.
\<close>

record world =
  rate_limiter :: limiter
  tick :: nat
  slept :: nat

type_synonym clock = "nat \<Rightarrow> real"

text \<open>\<open>__init__\<close>: two readings of the clock, for the window start and the log time.\<close>

definition init_limiter :: "clock \<Rightarrow> int \<Rightarrow> int \<Rightarrow> world" where
  "init_limiter clk mrps budget =
     \<lparr> rate_limiter = \<lparr> max_rps = mrps, monthly_budget = budget, cu_used = 0,
               window_start = clk 0, requests_in_window = 0, last_log_time = clk 1 \<rparr>,
       tick = 2, slept = 0 \<rparr>"

text \<open>
  \<open>can_request\<close>: the budget gate comes first and returns before the clock is read; then
  the window is reset when one second has passed since it opened; the answer is whether
  the count of the current window is below the ceiling.
\<close>

definition can_request :: "clock \<Rightarrow> int \<Rightarrow> world \<Rightarrow> bool \<times> world" where
  "can_request clk cu_cost w =
     (let l = rate_limiter w in
      if cu_used l + cu_cost > monthly_budget l then (False, w)
      else
        let now = clk (tick w);
            l' = (if now - window_start l \<ge> 1
                  then l\<lparr> window_start := now, requests_in_window := 0 \<rparr>
                  else l)
        in (requests_in_window l' < max_rps l', w\<lparr> rate_limiter := l', tick := Suc (tick w) \<rparr>))"

text \<open>
  The result of an acquire: the call returned after recording the request (\<open>Admitted\<close>),
  it is still in its retry loop when the fuel ran out (\<open>Blocked\<close>), or the hourly usage
  log divided by a monthly budget of zero (\<open>Raised\<close>, Python's ZeroDivisionError, which
  leaves \<open>record_request\<close> after the counters were updated).
\<close>

datatype outcome = Admitted world | Blocked world | Raised world

fun world_of :: "outcome \<Rightarrow> world" where
  "world_of (Admitted w) = w"
| "world_of (Blocked w) = w"
| "world_of (Raised w) = w"

fun is_blocked :: "outcome \<Rightarrow> bool" where
  "is_blocked (Admitted w) = False"
| "is_blocked (Blocked w) = True"
| "is_blocked (Raised w) = False"

definition record_request :: "clock \<Rightarrow> int \<Rightarrow> world \<Rightarrow> outcome" where
  "record_request clk cu_cost w =
     (let l = rate_limiter w;
          l1 = l\<lparr> cu_used := cu_used l + cu_cost,
                   requests_in_window := requests_in_window l + 1 \<rparr>;
          now = clk (tick w)
      in if now - last_log_time l1 \<ge> 3600
         then let w' = w\<lparr> rate_limiter := l1\<lparr> last_log_time := now \<rparr>, tick := Suc (tick w) \<rparr>
              in if monthly_budget l1 = 0 then Raised w' else Admitted w'
         else Admitted (w\<lparr> rate_limiter := l1, tick := Suc (tick w) \<rparr>))"

text \<open>
  \<open>wait_if_needed\<close>: \<open>while not self.can_request(cu_cost): time.sleep(0.05)\<close>, then
  \<open>self.record_request(cu_cost)\<close>. The fuel bounds the number of sleeps; when it runs out
  the call has not returned.
\<close>

fun wait_if_needed :: "clock \<Rightarrow> nat \<Rightarrow> int \<Rightarrow> world \<Rightarrow> outcome" where
  "wait_if_needed clk 0 cu_cost w =
     (case can_request clk cu_cost w of
        (True, w') \<Rightarrow> record_request clk cu_cost w'
      | (False, w') \<Rightarrow> Blocked w')"
| "wait_if_needed clk (Suc n) cu_cost w =
     (case can_request clk cu_cost w of
        (True, w') \<Rightarrow> record_request clk cu_cost w'
      | (False, w') \<Rightarrow> wait_if_needed clk n cu_cost (w'\<lparr> slept := Suc (slept w') \<rparr>))"

text \<open>
  The callers. \<open>_rate_limiter\<close> is one object shared by the poller threads, and the lock
  is held inside \<open>can_request\<close> and inside \<open>record_request\<close>, not from the one to the
  other: the atomic steps of a caller in \<open>wait_if_needed\<close> are one \<open>can_request\<close>
  (followed by its \<open>sleep\<close> when the answer is \<open>False\<close>) and one \<open>record_request\<close>. A
  caller is \<open>Checking\<close> while it is in the loop, \<open>Passed\<close> between the \<open>can_request\<close>
  that answered \<open>True\<close> and its \<open>record_request\<close>, and \<open>Returned\<close> or \<open>Failed\<close> (the
  ZeroDivisionError of the usage log) afterwards.
\<close>

datatype phase = Checking | Passed | Returned | Failed

record system =
  shared :: world
  phases :: "phase list"

text \<open>
  Caller \<open>i\<close> acquires once, with cost \<open>cs ! i\<close>; a thread that acquires several times
  is several callers, one after the other. All callers start in the loop, on a fresh
  limiter.
\<close>

definition start :: "clock \<Rightarrow> int \<Rightarrow> int \<Rightarrow> int list \<Rightarrow> system" where
  "start clk mrps budget cs =
     \<lparr> shared = init_limiter clk mrps budget, phases = replicate (length cs) Checking \<rparr>"

text \<open>The next atomic step of caller \<open>i\<close>.\<close>

definition step :: "clock \<Rightarrow> int list \<Rightarrow> nat \<Rightarrow> system \<Rightarrow> system" where
  "step clk cs i s =
     (if i < length (phases s) \<and> i < length cs then
        (case phases s ! i of
           Checking \<Rightarrow>
             (case can_request clk (cs ! i) (shared s) of
                (True, w') \<Rightarrow> s\<lparr> shared := w', phases := (phases s)[i := Passed] \<rparr>
              | (False, w') \<Rightarrow> s\<lparr> shared := w'\<lparr> slept := Suc (slept w') \<rparr> \<rparr>)
         | Passed \<Rightarrow>
             (case record_request clk (cs ! i) (shared s) of
                Admitted w' \<Rightarrow> s\<lparr> shared := w', phases := (phases s)[i := Returned] \<rparr>
              | Raised w' \<Rightarrow> s\<lparr> shared := w', phases := (phases s)[i := Failed] \<rparr>
              | Blocked w' \<Rightarrow> s)
         | Returned \<Rightarrow> s
         | Failed \<Rightarrow> s)
      else s)"

text \<open>A schedule names the caller that takes each step, in the order of the lock.\<close>

fun run :: "clock \<Rightarrow> int list \<Rightarrow> nat list \<Rightarrow> system \<Rightarrow> system" where
  "run clk cs [] s = s"
| "run clk cs (i # sched) s = run clk cs sched (step clk cs i s)"

text \<open>
  The schedules in which acquires do not overlap: whenever a caller is between its
  admitting \<open>can_request\<close> and its \<open>record_request\<close>, the next step is the
  \<open>record_request\<close> of that caller. Callers that are retrying may take steps at any
  other time.
\<close>

definition exclusive :: "nat \<Rightarrow> system \<Rightarrow> bool" where
  "exclusive i s = list_all (\<lambda>j. phases s ! j \<noteq> Passed \<or> j = i) [0..<length (phases s)]"

fun serial :: "clock \<Rightarrow> int list \<Rightarrow> nat list \<Rightarrow> system \<Rightarrow> bool" where
  "serial clk cs [] s = True"
| "serial clk cs (i # sched) s = (exclusive i s \<and> serial clk cs sched (step clk cs i s))"

text \<open>
  The admissions of a schedule, in order: for each \<open>can_request\<close> that answered \<open>True\<close>,
  the clock reading it took and the start of the limiter window it found (after the
  reset, when it made one).
\<close>

definition admits :: "clock \<Rightarrow> int list \<Rightarrow> nat \<Rightarrow> system \<Rightarrow> bool" where
  "admits clk cs i s \<longleftrightarrow>
     i < length (phases s) \<and> i < length cs \<and> phases s ! i = Checking
     \<and> fst (can_request clk (cs ! i) (shared s))"

fun admissions :: "clock \<Rightarrow> int list \<Rightarrow> nat list \<Rightarrow> system \<Rightarrow> (real \<times> real) list" where
  "admissions clk cs [] s = []"
| "admissions clk cs (i # sched) s =
     (if admits clk cs i s
      then (clk (tick (shared s)), window_start (rate_limiter (shared (step clk cs i s))))
             # admissions clk cs sched (step clk cs i s)
      else admissions clk cs sched (step clk cs i s))"

text \<open>The calls admitted in the rolling window \<open>[t, t + 1)\<close>.\<close>

definition admitted_in_rolling_second :: "real \<Rightarrow> (real \<times> real) list \<Rightarrow> nat" where
  "admitted_in_rolling_second t adm = length (filter (\<lambda>a. t \<le> fst a \<and> fst a < t + 1) adm)"

text \<open>The calls admitted in the limiter window that opened at \<open>v\<close>.\<close>

definition admitted_in_limiter_window :: "real \<Rightarrow> (real \<times> real) list \<Rightarrow> nat" where
  "admitted_in_limiter_window v adm = length (filter (\<lambda>a. snd a = v) adm)"

text \<open>
  The window of a system: its start, its count, the ceiling, and the callers between
  their check and their record (one at most when acquires do not overlap).
\<close>

definition wstart :: "system \<Rightarrow> real" where "wstart s = window_start (rate_limiter (shared s))"
definition wcount :: "system \<Rightarrow> int" where "wcount s = requests_in_window (rate_limiter (shared s))"
definition wceil :: "system \<Rightarrow> int" where "wceil s = max_rps (rate_limiter (shared s))"
definition pend :: "system \<Rightarrow> int" where "pend s = (if Passed \<in> set (phases s) then 1 else 0)"

text \<open>
  Concrete inputs for the examples below: a clock that reads 0 twice (when the limiter
  is created) and then 0.9, 0.925, 0.95, ... (a burst of calls 25 ms apart); four
  callers of cost 1 that acquire one after the other, and with them a fifth caller of
  cost 97 that has not taken a step yet; and two callers of cost 60 whose acquires
  overlap (both check before either records).
\<close>

definition clk_burst :: clock where
  "clk_burst n = (if n < 2 then 0 else 9/10 + (real n - 2) / 40)"

definition burst_costs :: "int list" where
  "burst_costs = [1, 1, 1, 1]"

definition burst_sched :: "nat list" where
  "burst_sched = [0, 0, 1, 1, 2, 2, 3, 3]"

definition crossing_costs :: "int list" where
  "crossing_costs = [1, 1, 1, 1, 97]"

definition after_burst :: system where
  "after_burst = run clk_burst crossing_costs burst_sched (start clk_burst 2 100 crossing_costs)"

definition race_costs :: "int list" where
  "race_costs = [60, 60]"

definition race_sched :: "nat list" where
  "race_sched = [0, 1, 0, 1]"

section \<open>Solana poller (chains/solana\_api.py)\<close>

text \<open>
  A Python dict keeps its keys in insertion order: an association list with distinct
  keys, a new key going to the end and an existing key keeping its place.
\<close>

type_synonym 'v pydict = "(string \<times> 'v) list"

fun dict_set :: "'v pydict \<Rightarrow> string \<Rightarrow> 'v \<Rightarrow> 'v pydict" where
  "dict_set [] k v = [(k, v)]"
| "dict_set ((k', v') # d) k v = (if k' = k then (k, v) # d else (k', v') # dict_set d k v)"

definition dict_del :: "'v pydict \<Rightarrow> string \<Rightarrow> 'v pydict" where
  "dict_del d k = filter (\<lambda>kv. fst kv \<noteq> k) d"

definition dict_keys :: "'v pydict \<Rightarrow> string list" where
  "dict_keys d = map fst d"

fun del_keys :: "string list \<Rightarrow> 'v pydict \<Rightarrow> 'v pydict" where
  "del_keys [] d = d"
| "del_keys (k # ks) d = del_keys ks (dict_del d k)"

text \<open>
  An entry of the answer of \<open>getSignaturesForAddress\<close>: something that is not a dict,
  or a dict with its \<open>signature\<close> and \<open>blockTime\<close> (either may be absent).
\<close>

datatype sig_entry = NotADict | SigEntry "string option" "int option"

text \<open>
  The loop over \<open>sig_infos\<close> (newest first): entries that are not dicts or have no
  signature are passed over, the loop breaks at the last processed signature, and
  every other signature is collected.
\<close>

fun collect_new :: "string option \<Rightarrow> sig_entry list \<Rightarrow> string list" where
  "collect_new last_sig [] = []"
| "collect_new last_sig (NotADict # es) = collect_new last_sig es"
| "collect_new last_sig (SigEntry None bt # es) = collect_new last_sig es"
| "collect_new last_sig (SigEntry (Some sg) bt # es) =
     (if sg = [] then collect_new last_sig es
      else if last_sig \<noteq> None \<and> last_sig \<noteq> Some [] \<and> Some sg = last_sig then []
      else sg # collect_new last_sig es)"

definition new_signatures :: "string option \<Rightarrow> sig_entry list \<Rightarrow> string list" where
  "new_signatures last_sig sig_infos = rev (collect_new last_sig sig_infos)"

fun first_signature :: "sig_entry list \<Rightarrow> string option" where
  "first_signature [] = None"
| "first_signature (NotADict # es) = None"
| "first_signature (SigEntry s bt # es) = s"

text \<open>The signature of an entry that the loop does not pass over.\<close>

fun entry_signature :: "sig_entry \<Rightarrow> string option" where
  "entry_signature NotADict = None"
| "entry_signature (SigEntry None bt) = None"
| "entry_signature (SigEntry (Some sg) bt) = (if sg = [] then None else Some sg)"

text \<open>
  The cursor of one mint after the signatures were read, and the signatures the
  transaction loop then goes through, in its order. \<open>sig_infos\<close> is a non-empty list
  here (the source leaves the mint alone otherwise).
\<close>

definition advance_cursor :: "string option \<Rightarrow> sig_entry list \<Rightarrow> string option \<times> string list" where
  "advance_cursor last_sig sig_infos =
     (let new = new_signatures last_sig sig_infos in
      if new \<noteq> [] then (Some (last new), new)
      else if last_sig = None \<and> sig_infos \<noteq> [] then (first_signature sig_infos, [])
      else (last_sig, []))"

definition PARSED_CACHE_MAX :: nat where
  "PARSED_CACHE_MAX = 500"

text \<open>
  \<open>parsed_cache[sig] = tx_data\<close>, then, when the cache is over its cap, the deletion of
  the first \<open>len(parsed_cache) - PARSED_CACHE_MAX\<close> keys.
\<close>

definition cache_insert :: "string \<Rightarrow> 'v \<Rightarrow> 'v pydict \<Rightarrow> 'v pydict" where
  "cache_insert sg tx_data parsed_cache =
     (let c = dict_set parsed_cache sg tx_data in
      if length c > PARSED_CACHE_MAX
      then del_keys (take (length c - PARSED_CACHE_MAX) (dict_keys c)) c
      else c)"

text \<open>
  A parsed transaction as far as the poller reads it: \<open>blockTime\<close>, the instructions of
  \<open>transaction.message\<close> and, for each entry of \<open>meta.innerInstructions\<close>, its
  instructions. An instruction has a \<open>programId\<close> and may have a \<open>parsed\<close> dict with a
  \<open>type\<close> and an \<open>info\<close>. The payloads are taken as well-typed JSON of this shape.
\<close>

record transfer_info =
  info_mint :: "string option"
  info_source :: "string option"
  info_destination :: "string option"
  info_amount :: "string option"

record instruction =
  program_id :: "string option"
  parsed :: "(string option \<times> transfer_info) option"

record parsed_tx =
  block_time :: "int option"
  instructions :: "instruction list"
  inner_instructions :: "instruction list list"

record extracted =
  x_source :: "string option"
  x_destination :: "string option"
  x_amount :: string

record sol_token =
  token_key :: string
  mint_address :: string
  token_decimals :: nat

record sol_event =
  ev_from :: "string option"
  ev_to :: "string option"
  ev_symbol :: string
  ev_amount :: string
  ev_tx_hash :: string
  ev_timestamp :: "int option"
  ev_decimals :: nat
  ev_raw_tx :: parsed_tx

definition TOKEN_PROGRAM :: string where
  "TOKEN_PROGRAM = ''TokenkegQfeZyiNwAJbNbGKPFXCWuBvf9Ss623VQ5DA''"

definition endswith :: "string \<Rightarrow> string \<Rightarrow> bool" where
  "endswith s suf \<longleftrightarrow> length suf \<le> length s \<and> drop (length s - length suf) s = suf"

text \<open>\<open>str(x)\<close> of a value that is a string or \<open>None\<close>.\<close>

definition py_str :: "string option \<Rightarrow> string" where
  "py_str x = (case x of None \<Rightarrow> ''None'' | Some s \<Rightarrow> s)"

definition extract_one :: "string \<Rightarrow> instruction \<Rightarrow> extracted list" where
  "extract_one mint_addr ix =
     (case program_id ix of
        None \<Rightarrow> []
      | Some pid \<Rightarrow>
          if pid \<noteq> [] \<and> endswith pid TOKEN_PROGRAM then
            (case parsed ix of
               None \<Rightarrow> []
             | Some (ty, info_data) \<Rightarrow>
                 if ty = Some ''transfer'' \<and> info_mint info_data = Some mint_addr
                 then [\<lparr> x_source = info_source info_data,
                         x_destination = info_destination info_data,
                         x_amount = py_str (info_amount info_data) \<rparr>]
                 else [])
          else [])"

definition extract_transfers_from_instructions :: "string \<Rightarrow> instruction list \<Rightarrow> extracted list" where
  "extract_transfers_from_instructions mint_addr ixs = concat (map (extract_one mint_addr) ixs)"

definition transfers_extracted :: "string \<Rightarrow> parsed_tx \<Rightarrow> extracted list" where
  "transfers_extracted mint_addr tx_data =
     extract_transfers_from_instructions mint_addr (instructions tx_data)
     @ concat (map (extract_transfers_from_instructions mint_addr) (inner_instructions tx_data))"

text \<open>
  The fallback for a transaction without \<open>blockTime\<close>: the first entry of \<open>sig_infos\<close>
  with the signature. \<open>entry.get\<close> on an entry that is not a dict raises, outside
  every handler of the function.
\<close>

fun lookup_block_time :: "string \<Rightarrow> sig_entry list \<Rightarrow> py_error + int option" where
  "lookup_block_time sg [] = Inr None"
| "lookup_block_time sg (NotADict # es) = Inl AttributeError"
| "lookup_block_time sg (SigEntry s bt # es) =
     (if s = Some sg then Inr bt else lookup_block_time sg es)"

definition events_of_tx :: "sol_token \<Rightarrow> string \<Rightarrow> int option \<Rightarrow> parsed_tx \<Rightarrow> sol_event list" where
  "events_of_tx tok sg bt tx_data =
     map (\<lambda>t. \<lparr> ev_from = x_source t, ev_to = x_destination t, ev_symbol = token_key tok,
                 ev_amount = x_amount t, ev_tx_hash = sg,
                 ev_timestamp = (case bt of None \<Rightarrow> None | Some b \<Rightarrow> if b = 0 then None else Some b),
                 ev_decimals = token_decimals tok, ev_raw_tx = tx_data \<rparr>)
         (transfers_extracted (mint_address tok) tx_data)"

text \<open>
  The transaction of a signature: from the cache, or fetched and then stored in the
  cache; \<open>None\<close> when the fetch gave nothing (the signature is passed over).
\<close>

definition cached_or_fetched ::
  "(string \<Rightarrow> parsed_tx option) \<Rightarrow> string \<Rightarrow> parsed_tx pydict \<Rightarrow> (parsed_tx \<times> parsed_tx pydict) option" where
  "cached_or_fetched fetch sg cache =
     (case map_of cache sg of
        Some tx_data \<Rightarrow> Some (tx_data, cache)
      | None \<Rightarrow> (case fetch sg of
                   None \<Rightarrow> None
                 | Some tx_data \<Rightarrow> Some (tx_data, cache_insert sg tx_data cache)))"

text \<open>
  The loop \<open>for sig in new_signatures\<close>. The result is the cache and either the events
  appended to \<open>results\<close>, in order, or the exception that left the function.
\<close>

fun process_signatures ::
  "(string \<Rightarrow> parsed_tx option) \<Rightarrow> sol_token \<Rightarrow> sig_entry list \<Rightarrow> string list
     \<Rightarrow> parsed_tx pydict \<Rightarrow> parsed_tx pydict \<times> (py_error + sol_event list)" where
  "process_signatures fetch tok sig_infos [] cache = (cache, Inr [])"
| "process_signatures fetch tok sig_infos (sg # sgs) cache =
     (case cached_or_fetched fetch sg cache of
        None \<Rightarrow> process_signatures fetch tok sig_infos sgs cache
      | Some (tx_data, cache1) \<Rightarrow>
          (case (case block_time tx_data of
                   Some bt \<Rightarrow> Inr (Some bt)
                 | None \<Rightarrow> lookup_block_time sg sig_infos) of
             Inl e \<Rightarrow> (cache1, Inl e)
           | Inr bt \<Rightarrow>
               (case process_signatures fetch tok sig_infos sgs cache1 of
                  (cache2, Inl e) \<Rightarrow> (cache2, Inl e)
                | (cache2, Inr evs) \<Rightarrow> (cache2, Inr (events_of_tx tok sg bt tx_data @ evs)))))"

text \<open>
  \<open>fetch_solana_token_transfers\<close>: the state of the module (the cursor of every token
  and the cache) and, for one call, the answers of the provider.
\<close>

record sol_state =
  cursors :: "string \<Rightarrow> string option"
  parsed_cache :: "parsed_tx pydict"

record sol_provider =
  signatures_of :: "string \<Rightarrow> sig_entry list option"
  transaction_of :: "string \<Rightarrow> parsed_tx option"

text \<open>
  The body of the loop over the tokens, for one mint: the signatures are read, the
  cursor of the mint is moved, and the transaction loop goes through the new
  signatures. An answer that is not a list or is empty leaves the mint alone.
\<close>

definition poll_mint ::
  "sol_provider \<Rightarrow> sol_token \<Rightarrow> sol_state \<Rightarrow> sol_state \<times> (py_error + sol_event list)" where
  "poll_mint P tok st =
     (case signatures_of P (mint_address tok) of
        None \<Rightarrow> (st, Inr [])
      | Some [] \<Rightarrow> (st, Inr [])
      | Some (e # es) \<Rightarrow>
          (case advance_cursor (cursors st (token_key tok)) (e # es) of
             (cur, new) \<Rightarrow>
               let st1 = st\<lparr> cursors := (cursors st)(token_key tok := cur) \<rparr> in
               (case process_signatures (transaction_of P) tok (e # es) new (parsed_cache st1) of
                  (cache', r) \<Rightarrow> (st1\<lparr> parsed_cache := cache' \<rparr>, r))))"

text \<open>
  The loop over the tokens. An exception leaves the function: the state keeps what was
  done, the events collected so far are lost.
\<close>

fun fetch_solana_token_transfers ::
  "sol_provider \<Rightarrow> sol_token list \<Rightarrow> sol_state \<Rightarrow> sol_state \<times> (py_error + sol_event list)" where
  "fetch_solana_token_transfers P [] st = (st, Inr [])"
| "fetch_solana_token_transfers P (tok # toks) st =
     (case poll_mint P tok st of
        (st1, Inl err) \<Rightarrow> (st1, Inl err)
      | (st1, Inr evs) \<Rightarrow>
          (case fetch_solana_token_transfers P toks st1 of
             (st2, Inl err) \<Rightarrow> (st2, Inl err)
           | (st2, Inr evs') \<Rightarrow> (st2, Inr (evs @ evs'))))"

text \<open>
  The loop of \<open>print_new_solana_transfers\<close> over the events of one poll: the amount is
  parsed (\<open>py_int\<close> is Python's \<open>int\<close> on a string, \<open>None\<close> for its ValueError), the
  estimated value is compared with the threshold, and the event goes to \<open>handle_event\<close>
  when the classifier \<open>enrich\<close> (an opaque collaborator; \<open>None\<close> when it gives nothing
  or raises) returns something. The result is the events handed over, in order, each
  with its estimated value.
\<close>

record sol_config =
  py_int :: "string \<Rightarrow> int option"
  token_prices :: "string \<Rightarrow> real option"
  usd_threshold :: real
  enrich :: "sol_event \<Rightarrow> bool"
  sol_rt :: py_runtime

definition solana_estimated_usd :: "sol_config \<Rightarrow> sol_event \<Rightarrow> real option" where
  "solana_estimated_usd C ev =
     (case py_int C (ev_amount ev) of
        None \<Rightarrow> None
      | Some raw_amount \<Rightarrow>
          Some (py_mul (sol_rt C)
                  (py_div (sol_rt C) (real_of_int raw_amount) (10 ^ ev_decimals ev))
                  (case token_prices C (ev_symbol ev) of None \<Rightarrow> 0 | Some p \<Rightarrow> p)))"

definition solana_emits :: "sol_config \<Rightarrow> sol_event \<Rightarrow> bool" where
  "solana_emits C ev =
     (case solana_estimated_usd C ev of
        None \<Rightarrow> False
      | Some estimated_usd \<Rightarrow> \<not> estimated_usd < usd_threshold C \<and> enrich C ev)"

definition solana_emitted :: "sol_config \<Rightarrow> sol_event list \<Rightarrow> sol_event list" where
  "solana_emitted C transfers = filter (solana_emits C) transfers"

text \<open>Concrete inputs for the examples: a full cache of 500 entries.\<close>

definition full_cache :: "nat pydict" where
  "full_cache = map (\<lambda>n. (replicate (Suc n) CHR ''s'', n)) [0..<500]"

section \<open>Bitcoin poller (chains/bitcoin\_alchemy.py)\<close>

text \<open>
  A decoded block (verbosity 2) as far as \<open>_process_block\<close> reads it. Amounts and
  prices are the reals the floats of the source denote. An absent or empty address is
  the empty string; \<open>out_value\<close> is \<open>out.get("value", 0)\<close>.
\<close>

record btc_out =
  out_value :: real
  spk_address :: string
  spk_addresses :: "string list"

record btc_tx =
  txid :: string
  vout :: "btc_out list"
  vin_prevout_addresses :: "string list"

record btc_block =
  block_txs :: "btc_tx list"
  btc_block_time :: "real option"

text \<open>The event dict handed to \<open>handle_event\<close>.\<close>

record chain_event =
  ev_blockchain :: string
  ev_hash :: string
  ev_sender :: string
  ev_receiver :: string
  ev_value :: real
  ev_token :: string
  ev_usd_value :: real
  ev_time :: real
  ev_source :: string

text \<open>
  The configuration one call reads: \<open>GLOBAL_USD_THRESHOLD\<close>, the price \<open>_btc_price()\<close>,
  the value of \<open>time.time()\<close> used for a block without \<open>time\<close>, and the runtime.
\<close>

record btc_config =
  btc_threshold_usd :: real
  btc_usd :: real
  btc_now :: real
  btc_rt :: py_runtime

definition btc_to_addr :: "btc_out \<Rightarrow> string" where
  "btc_to_addr out =
     (if spk_address out \<noteq> [] then spk_address out
      else (case spk_addresses out of [] \<Rightarrow> [] | a # _ \<Rightarrow> a))"

definition btc_from_addr :: "btc_tx \<Rightarrow> string" where
  "btc_from_addr tx = (case vin_prevout_addresses tx of [] \<Rightarrow> [] | a # _ \<Rightarrow> a)"

text \<open>
  \<open>threshold_btc = GLOBAL_USD_THRESHOLD / btc_usd\<close>, the quotient as the floats give it,
  and the test of one output: it is passed over when \<open>value_btc < threshold_btc\<close>.
\<close>

definition threshold_btc :: "btc_config \<Rightarrow> real" where
  "threshold_btc C = py_div (btc_rt C) (btc_threshold_usd C) (btc_usd C)"

definition btc_output_emits :: "btc_config \<Rightarrow> btc_out \<Rightarrow> bool" where
  "btc_output_emits C out \<longleftrightarrow> \<not> out_value out < threshold_btc C"

definition btc_event :: "btc_config \<Rightarrow> btc_block \<Rightarrow> btc_tx \<Rightarrow> btc_out \<Rightarrow> chain_event" where
  "btc_event C block tx out =
     \<lparr> ev_blockchain = ''bitcoin'', ev_hash = txid tx,
       ev_sender = (if btc_from_addr tx \<noteq> [] then btc_from_addr tx else ''coinbase''),
       ev_receiver = btc_to_addr out, ev_value = out_value out, ev_token = ''BTC'',
       ev_usd_value = py_mul (btc_rt C) (out_value out) (btc_usd C),
       ev_time = (case btc_block_time block of None \<Rightarrow> btc_now C | Some t \<Rightarrow> t),
       ev_source = ''bitcoin_alchemy'' \<rparr>"

definition btc_tx_events :: "btc_config \<Rightarrow> btc_block \<Rightarrow> btc_tx \<Rightarrow> chain_event list" where
  "btc_tx_events C block tx =
     map (btc_event C block tx) (filter (btc_output_emits C) (vout tx))"

text \<open>
  \<open>_process_block\<close>: the division by a price of zero raises before any output is looked
  at; otherwise the events handed to \<open>handle_event\<close>, in order (their number is the
  result \<open>found\<close> of the source).
\<close>

definition process_block :: "btc_config \<Rightarrow> btc_block \<Rightarrow> py_error + chain_event list" where
  "process_block C block =
     (if btc_usd C = 0 then Inl ZeroDivisionError
      else Inr (concat (map (btc_tx_events C block) (block_txs block))))"

text \<open>
  What one cycle of \<open>poll_bitcoin_blocks\<close> gets from outside: the answer of
  \<open>getblockcount\<close>, the answers of \<open>getblockhash\<close> and \<open>getblock\<close>, and whether the
  shutdown flag is found set before the block of a height is fetched.
\<close>

record btc_provider =
  blockcount :: "int option"
  blockhash :: "int \<Rightarrow> string option"
  block_of :: "string \<Rightarrow> btc_block option"
  btc_shutdown :: "int \<Rightarrow> bool"

text \<open>
  The loop over the heights: the events handed over, each with the height \<open>h\<close> of the
  loop, and whether an exception left the loop (the events before it stay handed over).
\<close>

fun btc_scan :: "btc_config \<Rightarrow> btc_provider \<Rightarrow> int list \<Rightarrow> (int \<times> chain_event) list \<times> bool" where
  "btc_scan C P [] = ([], False)"
| "btc_scan C P (h # hs) =
     (if btc_shutdown P h then ([], False)
      else (case blockhash P h of
              None \<Rightarrow> btc_scan C P hs
            | Some bh \<Rightarrow>
                if bh = [] then btc_scan C P hs
                else (case block_of P bh of
                        None \<Rightarrow> btc_scan C P hs
                      | Some block \<Rightarrow>
                          (case process_block C block of
                             Inl e \<Rightarrow> ([], True)
                           | Inr evs \<Rightarrow>
                               (case btc_scan C P hs of
                                  (rest, raised) \<Rightarrow> (map (Pair h) evs @ rest, raised))))))"

text \<open>
  One pass of the \<open>while\<close> loop of \<open>poll_bitcoin_blocks\<close>: the new value of
  \<open>_last_seen_height\<close> and the events handed over. An exception is caught by the loop
  and leaves the cursor as it was.
\<close>

definition poll_bitcoin_cycle ::
  "btc_config \<Rightarrow> btc_provider \<Rightarrow> int option \<Rightarrow> int option \<times> (int \<times> chain_event) list" where
  "poll_bitcoin_cycle C P last_seen =
     (case blockcount P of
        None \<Rightarrow> (last_seen, [])
      | Some current_height \<Rightarrow>
          (case last_seen of
             None \<Rightarrow> (Some current_height, [])
           | Some l \<Rightarrow>
               if current_height \<le> l then (last_seen, [])
               else (case btc_scan C P [l + 1 .. current_height] of
                       (evs, raised) \<Rightarrow> (if raised then last_seen else Some current_height, evs))))"

text \<open>
  The start of \<open>poll_bitcoin_blocks\<close>: \<open>_last_seen_height\<close> is \<open>None\<close> when the module is
  loaded and is set to the tip when \<open>getblockcount\<close> answers.
\<close>

definition bitcoin_startup :: "int option \<Rightarrow> int option" where
  "bitcoin_startup height = (case height of None \<Rightarrow> None | Some h \<Rightarrow> Some h)"

text \<open>The cursor after the start and a sequence of cycles.\<close>

fun bitcoin_run :: "(btc_config \<times> btc_provider) list \<Rightarrow> int option \<Rightarrow> int option list" where
  "bitcoin_run [] last_seen = [last_seen]"
| "bitcoin_run ((C, P) # rest) last_seen =
     last_seen # bitcoin_run rest (fst (poll_bitcoin_cycle C P last_seen))"

text \<open>
  The order of cursors: no cursor is below every height, and heights are ordered as
  integers.
\<close>

fun cursor_le :: "int option \<Rightarrow> int option \<Rightarrow> bool" where
  "cursor_le None c = True"
| "cursor_le (Some a) None = False"
| "cursor_le (Some a) (Some b) = (a \<le> b)"

fun nondecreasing :: "int option list \<Rightarrow> bool" where
  "nondecreasing [] = True"
| "nondecreasing [c] = True"
| "nondecreasing (c # d # cs) = (cursor_le c d \<and> nondecreasing (d # cs))"

section \<open>Tron poller (chains/tron\_alchemy.py)\<close>

text \<open>\<open>s[-40:]\<close>.\<close>

definition last40 :: "string \<Rightarrow> string" where
  "last40 s = drop (length s - 40) s"

text \<open>\<open>s.zfill(40)\<close>: zeros on the left up to 40 characters, after a leading sign.\<close>

definition zfill40 :: "string \<Rightarrow> string" where
  "zfill40 s =
     (case s of
        c # cs \<Rightarrow>
          if c = CHR ''+'' \<or> c = CHR ''-''
          then c # replicate (40 - length s) CHR ''0'' @ cs
          else replicate (40 - length s) CHR ''0'' @ s
      | [] \<Rightarrow> replicate 40 CHR ''0'')"

text \<open>
  \<open>_tron_address_from_hex\<close>. The hashing and base58 encoding of the 21 bytes is left to
  \<open>b58check\<close> (hashlib and base58; \<open>None\<close> when the hex string is not one), and the
  handler returns the padded hex string then.
\<close>

definition tron_address_from_hex :: "(string \<Rightarrow> string option) \<Rightarrow> string \<Rightarrow> string" where
  "tron_address_from_hex b58check hex_addr =
     (let h = zfill40 (dropWhile (\<lambda>c. c = CHR ''0'') (remove_all ''0x'' hex_addr))
      in case b58check (''41'' @ h) of None \<Rightarrow> h | Some a \<Rightarrow> a)"

definition TRON_USDT_CONTRACT :: string where
  "TRON_USDT_CONTRACT = ''TR7NHqjeKQxGTCi8q8ZY4pL8otSzgjLj6t''"

definition TRANSFER_TOPIC :: string where
  "TRANSFER_TOPIC = ''ddf252ad1be2c89b69c2b068fc378daa952ba7f163c4a11628f55a4df523b3ef''"

record tron_log =
  topics :: "string list"
  log_address :: string
  log_data :: string

record tron_itx =
  call_values :: "int list"
  caller_address :: string
  transfer_to_address :: string

record tron_tx_info =
  info_id :: string
  info_log :: "tron_log list"
  internal_transactions :: "tron_itx list"
  block_timestamp :: "real option"

text \<open>
  The configuration one call reads: \<open>GLOBAL_USD_THRESHOLD\<close>, the table \<open>TOKEN_PRICES\<close>,
  \<open>time.time()\<close>, Python's \<open>int(s, 16)\<close> (\<open>None\<close> for its ValueError), the encoder
  above and the runtime. The default price \<open>0.12\<close> of TRX is the double that this
  literal denotes.
\<close>

record tron_config =
  tron_threshold_usd :: real
  tron_prices :: "string \<Rightarrow> real option"
  tron_now :: real
  int16 :: "string \<Rightarrow> int option"
  tron_b58check :: "string \<Rightarrow> string option"
  tron_rt :: py_runtime

definition usdt_price :: "tron_config \<Rightarrow> real" where
  "usdt_price C = (case tron_prices C ''USDT'' of None \<Rightarrow> 1 | Some p \<Rightarrow> p)"

definition trx_price :: "tron_config \<Rightarrow> real" where
  "trx_price C = (case tron_prices C ''TRX'' of None \<Rightarrow> 1080863910568919 / 2 ^ 53 | Some p \<Rightarrow> p)"

definition log_is_transfer :: "tron_log \<Rightarrow> bool" where
  "log_is_transfer l \<longleftrightarrow>
     (case topics l of [] \<Rightarrow> False | t # _ \<Rightarrow> t = TRANSFER_TOPIC) \<and> 3 \<le> length (topics l)"

definition token_of_contract :: "py_runtime \<Rightarrow> string \<Rightarrow> string \<times> nat" where
  "token_of_contract R contract_addr =
     (let a = py_lower R contract_addr in
      if a = py_lower R TRON_USDT_CONTRACT \<or> contains ''a614f803b6fd780986a42c78ec9c7f77e6ded13c'' a
      then (''USDT'', 6)
      else if contains ''cead2b'' a then (''USDC'', 6)
      else (''TRC20'', 18))"

text \<open>
  The amount and the USD value of a Transfer log; \<open>None\<close> when the data field does not
  parse (the log is passed over).
\<close>

definition trc20_value :: "tron_config \<Rightarrow> tron_log \<Rightarrow> (real \<times> real) option" where
  "trc20_value C l =
     (case (if log_data l = [] then Some 0 else int16 C (log_data l)) of
        None \<Rightarrow> None
      | Some raw_amount \<Rightarrow>
          (case token_of_contract (tron_rt C) (log_address l) of
             (symbol, decimals) \<Rightarrow>
               let token_amount = py_div (tron_rt C) (real_of_int raw_amount) (10 ^ decimals);
                   price = (case tron_prices C symbol of
                              Some p \<Rightarrow> p
                            | None \<Rightarrow> if symbol = ''USDT'' \<or> symbol = ''USDC''
                                       then usdt_price C else 0)
               in Some (token_amount, py_mul (tron_rt C) token_amount price)))"

definition trc20_log_emits :: "tron_config \<Rightarrow> tron_log \<Rightarrow> bool" where
  "trc20_log_emits C l \<longleftrightarrow>
     log_is_transfer l \<and>
     (case trc20_value C l of
        None \<Rightarrow> False
      | Some (token_amount, usd_value) \<Rightarrow> \<not> usd_value < tron_threshold_usd C)"

definition trc20_event :: "tron_config \<Rightarrow> tron_tx_info \<Rightarrow> tron_log \<Rightarrow> chain_event" where
  "trc20_event C info l =
     \<lparr> ev_blockchain = ''tron'', ev_hash = info_id info,
       ev_sender = tron_address_from_hex (tron_b58check C) (last40 (topics l ! 1)),
       ev_receiver = tron_address_from_hex (tron_b58check C) (last40 (topics l ! 2)),
       ev_value = (case trc20_value C l of None \<Rightarrow> 0 | Some (a, u) \<Rightarrow> a),
       ev_token = fst (token_of_contract (tron_rt C) (log_address l)),
       ev_usd_value = (case trc20_value C l of None \<Rightarrow> 0 | Some (a, u) \<Rightarrow> u),
       ev_time = (case block_timestamp info of
                    None \<Rightarrow> py_div (tron_rt C) (py_mul (tron_rt C) (tron_now C) 1000) 1000
                  | Some t \<Rightarrow> py_div (tron_rt C) t 1000),
       ev_source = ''tron_alchemy'' \<rparr>"

definition trc20_events :: "tron_config \<Rightarrow> tron_tx_info \<Rightarrow> chain_event list" where
  "trc20_events C info = map (trc20_event C info) (filter (trc20_log_emits C) (info_log info))"

text \<open>
  The native transfers of the internal transactions: a call value counts when it is
  positive and its USD value is not below the threshold. The source prints and counts
  it; it builds no event for it.
\<close>

definition native_usd_value :: "tron_config \<Rightarrow> int \<Rightarrow> real" where
  "native_usd_value C trx_sun =
     py_mul (tron_rt C) (py_div (tron_rt C) (real_of_int trx_sun) 1000000) (trx_price C)"

definition native_counts :: "tron_config \<Rightarrow> int \<Rightarrow> bool" where
  "native_counts C trx_sun \<longleftrightarrow>
     \<not> trx_sun \<le> 0 \<and> \<not> native_usd_value C trx_sun < tron_threshold_usd C"

definition native_found :: "tron_config \<Rightarrow> tron_tx_info \<Rightarrow> nat" where
  "native_found C info =
     length (filter (native_counts C) (concat (map call_values (internal_transactions info))))"

text \<open>
  \<open>_process_block_txinfo\<close>: the count \<open>found\<close> it returns and the events it hands to
  \<open>handle_event\<close>, in order.
\<close>

definition process_block_txinfo :: "tron_config \<Rightarrow> tron_tx_info list \<Rightarrow> nat \<times> chain_event list" where
  "process_block_txinfo C tx_infos =
     (sum_list (map (\<lambda>info. length (trc20_events C info) + native_found C info) tx_infos),
      concat (map (trc20_events C) tx_infos))"

record tron_provider =
  now_block_number :: "int option"
  block_txinfo :: "int \<Rightarrow> tron_tx_info list option"
  tron_shutdown :: "int \<Rightarrow> bool"

fun tron_scan :: "tron_config \<Rightarrow> tron_provider \<Rightarrow> int list \<Rightarrow> (int \<times> chain_event) list" where
  "tron_scan C P [] = []"
| "tron_scan C P (blk # blks) =
     (if tron_shutdown P blk then []
      else (case block_txinfo P blk of
              None \<Rightarrow> tron_scan C P blks
            | Some tx_infos \<Rightarrow>
                map (Pair blk) (snd (process_block_txinfo C tx_infos)) @ tron_scan C P blks))"

definition poll_tron_cycle ::
  "tron_config \<Rightarrow> tron_provider \<Rightarrow> int option \<Rightarrow> int option \<times> (int \<times> chain_event) list" where
  "poll_tron_cycle C P last_seen =
     (case now_block_number P of
        None \<Rightarrow> (last_seen, [])
      | Some current_block \<Rightarrow>
          (case last_seen of
             None \<Rightarrow> (Some current_block, [])
           | Some l \<Rightarrow>
               if current_block \<le> l then (last_seen, [])
               else (Some current_block, tron_scan C P [l + 1 .. current_block])))"

definition tron_startup :: "int option \<Rightarrow> int option" where
  "tron_startup number = (case number of None \<Rightarrow> None | Some n \<Rightarrow> Some n)"

fun tron_run :: "(tron_config \<times> tron_provider) list \<Rightarrow> int option \<Rightarrow> int option list" where
  "tron_run [] last_seen = [last_seen]"
| "tron_run ((C, P) # rest) last_seen =
     last_seen # tron_run rest (fst (poll_tron_cycle C P last_seen))"

section \<open>Polygon poller (chains/polygon.py)\<close>

text \<open>
  A transfer of the answer of \<open>alchemy_getAssetTransfers\<close>: the address and the raw
  hex value of \<open>rawContract\<close>, the structured \<open>value\<close> when present, and \<open>blockNum\<close>,
  held here as the number its hex string denotes.
\<close>

record pg_transfer =
  raw_address :: string
  raw_value :: string
  pg_value :: "real option"
  pg_from :: string
  pg_to :: string
  pg_hash :: string
  block_num :: int

record pg_token =
  pg_symbol :: string
  pg_contract :: string
  pg_decimals :: nat

record pg_config =
  pg_tokens :: "pg_token list"
  pg_prices :: "string \<Rightarrow> real option"
  pg_threshold_usd :: real
  pg_now :: real
  pg_int16 :: "string \<Rightarrow> int option"
  pg_rt :: py_runtime

text \<open>
  \<open>contract_map\<close>, a dict built over the tokens in order: for a contract address that
  occurs twice the later token stays.
\<close>

definition contract_map :: "pg_config \<Rightarrow> string \<Rightarrow> (string \<times> nat) option" where
  "contract_map C =
     map_of (rev (map (\<lambda>t. (py_lower (pg_rt C) (pg_contract t), (pg_symbol t, pg_decimals t))) (pg_tokens C)))"

text \<open>
  The body of the loop over the transfers: the event handed to \<open>handle_event\<close>, or
  \<open>None\<close> when the transfer is passed over.
\<close>

definition polygon_event :: "pg_config \<Rightarrow> pg_transfer \<Rightarrow> chain_event option" where
  "polygon_event C tx =
     (case contract_map C (py_lower (pg_rt C) (raw_address tx)) of
        None \<Rightarrow> None
      | Some (symbol, decimals) \<Rightarrow>
          let price = (case pg_prices C symbol of None \<Rightarrow> 0 | Some p \<Rightarrow> p) in
          if price = 0 then None
          else
            (case (case pg_value tx of
                     Some v \<Rightarrow> Some v
                   | None \<Rightarrow> (case pg_int16 C (raw_value tx) of
                                None \<Rightarrow> None
                              | Some raw_int \<Rightarrow> Some (py_div (pg_rt C) (real_of_int raw_int) (10 ^ decimals)))) of
               None \<Rightarrow> None
             | Some v \<Rightarrow>
                 if py_mul (pg_rt C) v price < pg_threshold_usd C then None
                 else Some \<lparr> ev_blockchain = ''polygon'', ev_hash = pg_hash tx,
                             ev_sender = pg_from tx, ev_receiver = pg_to tx, ev_value = v,
                             ev_token = symbol, ev_usd_value = py_mul (pg_rt C) v price,
                             ev_time = pg_now C, ev_source = ''polygon_alchemy'' \<rparr>))"

text \<open>
  The events handed over for an answer, in order, each with the block number of its
  transfer.
\<close>

fun polygon_emitted :: "pg_config \<Rightarrow> pg_transfer list \<Rightarrow> (int \<times> chain_event) list" where
  "polygon_emitted C [] = []"
| "polygon_emitted C (tx # txs) =
     (case polygon_event C tx of
        None \<Rightarrow> polygon_emitted C txs
      | Some ev \<Rightarrow> (block_num tx, ev) # polygon_emitted C txs)"

text \<open>
  One pass of the loop of \<open>print_new_polygon_transfers\<close>. The provider is asked for the
  blocks \<open>last_block + 1\<close> to \<open>tip\<close> with \<open>"order": "desc"\<close>; \<open>asset_transfers\<close> is its
  answer for a range (\<open>None\<close> when the call fails), and \<open>last_block\<close> moves to the tip
  before the answer is looked at.
\<close>

record pg_provider =
  pg_block_number :: "int option"
  asset_transfers :: "int \<Rightarrow> int \<Rightarrow> pg_transfer list option"

definition poll_polygon_cycle ::
  "pg_config \<Rightarrow> pg_provider \<Rightarrow> int option \<Rightarrow> int option \<times> (int \<times> chain_event) list" where
  "poll_polygon_cycle C P last_block =
     (case pg_block_number P of
        None \<Rightarrow> (last_block, [])
      | Some tip \<Rightarrow>
          (case last_block of
             None \<Rightarrow> (Some tip, [])
           | Some l \<Rightarrow>
               if tip \<le> l then (last_block, [])
               else (Some tip,
                     (case asset_transfers P (l + 1) tip of
                        None \<Rightarrow> []
                      | Some transfers \<Rightarrow> polygon_emitted C transfers))))"

text \<open>The start: \<open>if current_block:\<close> takes a tip of 0 for no tip.\<close>

definition polygon_startup :: "int option \<Rightarrow> int option" where
  "polygon_startup current_block =
     (case current_block of None \<Rightarrow> None | Some c \<Rightarrow> if c = 0 then None else Some c)"

fun polygon_run :: "(pg_config \<times> pg_provider) list \<Rightarrow> int option \<Rightarrow> int option list" where
  "polygon_run [] last_block = [last_block]"
| "polygon_run ((C, P) # rest) last_block =
     last_block # polygon_run rest (fst (poll_polygon_cycle C P last_block))"

section \<open>Concrete inputs for the pollers\<close>

text \<open>
  A Bitcoin configuration with a price of 50000 USD and a threshold of 500000 USD, and
  outputs of 10 BTC (exactly the threshold), 9 BTC and 12 BTC.
\<close>

definition btc_cfg :: btc_config where
  "btc_cfg = \<lparr> btc_threshold_usd = 500000, btc_usd = 50000, btc_now = 1700000000,
               btc_rt = plain_runtime \<rparr>"

definition btc_out_of :: "real \<Rightarrow> btc_out" where
  "btc_out_of v = \<lparr> out_value = v, spk_address = ''bc1qreceiver'', spk_addresses = [] \<rparr>"

definition btc_tx0 :: btc_tx where
  "btc_tx0 = \<lparr> txid = ''tx0'', vout = [btc_out_of 10, btc_out_of 9, btc_out_of 12],
               vin_prevout_addresses = [] \<rparr>"

definition btc_block0 :: btc_block where
  "btc_block0 = \<lparr> block_txs = [btc_tx0], btc_block_time = Some 1700000123 \<rparr>"

text \<open>
  A Bitcoin configuration at the boundary in doubles: a threshold of 2000000 USD, the
  price \<open>19801.98\<close> and an output of \<open>101.00000101\<close> BTC (the doubles that these
  literals denote), with the rounding of doubles for the quotient, which lies between
  64 and 128 (the multiples of \<open>2^-46\<close>), and for the product, which lies between \<open>2^20\<close>
  and \<open>2^21\<close> (the multiples of \<open>2^-32\<close>).
\<close>

definition doubles_near :: py_runtime where
  "doubles_near = \<lparr> py_div = (\<lambda>x y. nearest_multiple (1 / 2 ^ 46) (x / y)),
                     py_mul = (\<lambda>x y. nearest_multiple (1 / 2 ^ 32) (x * y)),
                     py_lower = ascii_lower, py_upper = ascii_upper \<rparr>"

definition btc_cfg_near :: btc_config where
  "btc_cfg_near = \<lparr> btc_threshold_usd = 2000000, btc_usd = 5443126815746949 / 2 ^ 38,
                    btc_now = 1700000000, btc_rt = doubles_near \<rparr>"

definition btc_tx_near :: btc_tx where
  "btc_tx_near = \<lparr> txid = ''tx1'', vout = [btc_out_of (444202702063531 / 2 ^ 42)],
                   vin_prevout_addresses = [] \<rparr>"

definition btc_block_near :: btc_block where
  "btc_block_near = \<lparr> block_txs = [btc_tx_near], btc_block_time = Some 1700000123 \<rparr>"

text \<open>
  A Tron configuration with USDT at 1 USD, TRX at 0.125 USD and a threshold of 500000
  USD, a hex parser that knows two data fields, and a Transfer log of the USDT contract
  worth exactly the threshold.
\<close>

definition tron_cfg :: tron_config where
  "tron_cfg = \<lparr> tron_threshold_usd = 500000,
                tron_prices = (\<lambda>s. if s = ''USDT'' then Some 1
                                    else if s = ''TRX'' then Some (1 / 8) else None),
                tron_now = 1700000000,
                int16 = (\<lambda>s. if s = ''746a528800'' then Some 500000000000
                              else if s = ''e8d4a51000'' then Some 1000000000000 else None),
                tron_b58check = (\<lambda>s. None), tron_rt = plain_runtime \<rparr>"

definition tron_log0 :: tron_log where
  "tron_log0 = \<lparr> topics = [TRANSFER_TOPIC, ''aa'', ''bb''],
                 log_address = TRON_USDT_CONTRACT, log_data = ''746a528800'' \<rparr>"

definition tron_info0 :: tron_tx_info where
  "tron_info0 = \<lparr> info_id = ''t0'', info_log = [tron_log0], internal_transactions = [],
                  block_timestamp = Some 1700000000000 \<rparr>"

text \<open>
  A Polygon configuration with one token at 1 USD and a threshold of 100 USD, and the
  answer of the provider for the blocks 10 to 11, newest first as the request asks.
\<close>

definition pg_cfg :: pg_config where
  "pg_cfg = \<lparr> pg_tokens = [\<lparr> pg_symbol = ''USDC'', pg_contract = ''0xabc'', pg_decimals = 6 \<rparr>],
              pg_prices = (\<lambda>s. if s = ''USDC'' then Some 1 else None),
              pg_threshold_usd = 100, pg_now = 1700000000, pg_int16 = (\<lambda>s. None),
              pg_rt = plain_runtime \<rparr>"

definition pg_transfer_in :: "int \<Rightarrow> string \<Rightarrow> pg_transfer" where
  "pg_transfer_in b h =
     \<lparr> raw_address = ''0xabc'', raw_value = ''0x0'', pg_value = Some 500, pg_from = ''0x1'',
       pg_to = ''0x2'', pg_hash = h, block_num = b \<rparr>"

definition pg_prov :: pg_provider where
  "pg_prov = \<lparr> pg_block_number = Some 11,
               asset_transfers = (\<lambda>a b. Some [pg_transfer_in 11 ''hB'', pg_transfer_in 10 ''hA'']) \<rparr>"

text \<open>
  A Solana token, a parsed transaction with one SPL transfer of its mint, a provider
  that returns this transaction for every signature, and a configuration that lets the
  transfer through.
\<close>

definition sol_tok :: sol_token where
  "sol_tok = \<lparr> token_key = ''BONK'', mint_address = ''MintBONK'', token_decimals = 5 \<rparr>"

definition sol_tx :: parsed_tx where
  "sol_tx = \<lparr> block_time = Some 1700000000,
              instructions =
                [\<lparr> program_id = Some TOKEN_PROGRAM,
                   parsed = Some (Some ''transfer'',
                     \<lparr> info_mint = Some ''MintBONK'', info_source = Some ''src'',
                       info_destination = Some ''dst'', info_amount = Some ''700000000'' \<rparr>) \<rparr>],
              inner_instructions = [] \<rparr>"

definition sol_cfg :: sol_config where
  "sol_cfg = \<lparr> py_int = (\<lambda>s. if s = ''700000000'' then Some 700000000 else None),
               token_prices = (\<lambda>s. if s = ''BONK'' then Some 100 else None),
               usd_threshold = 500000, enrich = (\<lambda>e. True), sol_rt = plain_runtime \<rparr>"

text \<open>
  The poll of the scenario: the cursor of the mint is \<open>sig3\<close>, the cache is empty, and
  the provider answers with \<open>sig5\<close>, \<open>sig4\<close>, \<open>sig3\<close>, \<open>sig2\<close>, newest first.
\<close>

definition sol_prov :: sol_provider where
  "sol_prov = \<lparr> signatures_of = (\<lambda>m. Some [SigEntry (Some ''sig5'') (Some 50),
                                             SigEntry (Some ''sig4'') (Some 40),
                                             SigEntry (Some ''sig3'') (Some 30),
                                             SigEntry (Some ''sig2'') None]),
                transaction_of = (\<lambda>s. Some sol_tx) \<rparr>"

definition sol_st0 :: sol_state where
  "sol_st0 = \<lparr> cursors = (\<lambda>k. Some ''sig3''), parsed_cache = [] \<rparr>"

definition sol_event_of :: "string \<Rightarrow> sol_event" where
  "sol_event_of sg =
     \<lparr> ev_from = Some ''src'', ev_to = Some ''dst'', ev_symbol = ''BONK'',
       ev_amount = ''700000000'', ev_tx_hash = sg, ev_timestamp = Some 1700000000,
       ev_decimals = 5, ev_raw_tx = sol_tx \<rparr>"

section \<open>Provider client (utils/alchemy\_rpc.py, \_rpc\_call and \_http\_call)\<close>

text \<open>
  A JSON value, and what \<open>requests.post\<close> gives: an exception of the transport, or a
  response with its status code and its body (\<open>None\<close> when \<open>resp.json()\<close> raises).
\<close>

datatype json =
  JNull | JBool bool | JNum real | JStr string | JArr "json list" | JObj "(string \<times> json) list"

datatype http_result = TransportFails | Response int "json option"

text \<open>A JSON value as the Python value the caller gets: \<open>null\<close> is \<open>None\<close>.\<close>

definition py_value :: "json \<Rightarrow> json option" where
  "py_value j = (case j of JNull \<Rightarrow> None | _ \<Rightarrow> Some j)"

text \<open>
  The body of the \<open>try\<close> of \<open>_rpc_call\<close>. \<open>'error' in data\<close> is a key test on a dict, an
  element test on a list and a substring test on a string, and raises on anything else;
  after it, the log line reads \<open>data['error']\<close> and the result is read with \<open>data.get\<close>,
  which a list or a string does not have.
\<close>

definition rpc_try :: "http_result \<Rightarrow> py_error + json option" where
  "rpc_try r =
     (case r of
        TransportFails \<Rightarrow> Inl TransportException
      | Response status body \<Rightarrow>
          if status = 429 then Inr None
          else (case body of
                  None \<Rightarrow> Inl ValueError
                | Some (JObj kv) \<Rightarrow>
                    if ''error'' \<in> set (map fst kv) then Inr None
                    else (case map_of kv ''result'' of None \<Rightarrow> Inr None | Some v \<Rightarrow> Inr (py_value v))
                | Some (JArr xs) \<Rightarrow>
                    if JStr ''error'' \<in> set xs then Inl TypeError else Inl AttributeError
                | Some (JStr s) \<Rightarrow>
                    if contains ''error'' s then Inl TypeError else Inl AttributeError
                | Some _ \<Rightarrow> Inl TypeError))"

text \<open>The body of the \<open>try\<close> of \<open>_http_call\<close>: the parsed body is returned as it is.\<close>

definition http_try :: "http_result \<Rightarrow> py_error + json option" where
  "http_try r =
     (case r of
        TransportFails \<Rightarrow> Inl TransportException
      | Response status body \<Rightarrow>
          if status = 429 then Inr None
          else (case body of None \<Rightarrow> Inl ValueError | Some data \<Rightarrow> Inr (py_value data)))"

text \<open>
  The result of a call: it returns a value, an exception leaves it, or it has not
  returned (its acquire is still waiting).
\<close>

datatype call_result = Returns "json option" | Raises py_error | Hangs

text \<open>
  \<open>_rpc_call\<close> and \<open>_http_call\<close>: the acquire comes first, outside the \<open>try\<close>; every
  exception of the \<open>try\<close> is caught and gives \<open>None\<close>.
\<close>

definition rpc_call :: "clock \<Rightarrow> nat \<Rightarrow> int \<Rightarrow> world \<Rightarrow> http_result \<Rightarrow> call_result \<times> world" where
  "rpc_call clk fuel cu_cost w r =
     (case wait_if_needed clk fuel cu_cost w of
        Blocked w' \<Rightarrow> (Hangs, w')
      | Raised w' \<Rightarrow> (Raises ZeroDivisionError, w')
      | Admitted w' \<Rightarrow>
          (case rpc_try r of Inl e \<Rightarrow> (Returns None, w') | Inr v \<Rightarrow> (Returns v, w')))"

definition http_call :: "clock \<Rightarrow> nat \<Rightarrow> int \<Rightarrow> world \<Rightarrow> http_result \<Rightarrow> call_result \<times> world" where
  "http_call clk fuel cu_cost w r =
     (case wait_if_needed clk fuel cu_cost w of
        Blocked w' \<Rightarrow> (Hangs, w')
      | Raised w' \<Rightarrow> (Raises ZeroDivisionError, w')
      | Admitted w' \<Rightarrow>
          (case http_try r of Inl e \<Rightarrow> (Returns None, w') | Inr v \<Rightarrow> (Returns v, w')))"

fun has_returned :: "call_result \<Rightarrow> bool" where
  "has_returned (Returns v) = True"
| "has_returned (Raises e) = False"
| "has_returned Hangs = False"

text \<open>
  The failures after which \<open>_rpc_call\<close> gives \<open>None\<close>: the transport raises, the status
  is 429, the body is not JSON or not a JSON object, or the object has the key
  \<open>error\<close>. For \<open>_http_call\<close>: the transport raises, the status is 429, or the body is
  not JSON.
\<close>

fun rpc_failure :: "http_result \<Rightarrow> bool" where
  "rpc_failure TransportFails = True"
| "rpc_failure (Response status None) = True"
| "rpc_failure (Response status (Some (JObj kv))) =
     (status = 429 \<or> ''error'' \<in> set (map fst kv))"
| "rpc_failure (Response status (Some j)) = True"

fun http_failure :: "http_result \<Rightarrow> bool" where
  "http_failure TransportFails = True"
| "http_failure (Response status None) = True"
| "http_failure (Response status (Some j)) = (status = 429)"

section \<open>Persistence sink (utils/supabase\_writer.py)\<close>

text \<open>
  The values under the keys the writer reads (\<open>None\<close>, strings, numbers, booleans) and
  dicts as association lists read with \<open>d.get(k, default)\<close>.
\<close>

datatype pyval = PNone | PStr string | PNum real | PBool bool

type_synonym pyobj = "(string \<times> pyval) list"

definition py_get :: "pyobj \<Rightarrow> string \<Rightarrow> pyval \<Rightarrow> pyval" where
  "py_get d k dflt = (case map_of d k of None \<Rightarrow> dflt | Some v \<Rightarrow> v)"

fun truthy :: "pyval \<Rightarrow> bool" where
  "truthy PNone = False"
| "truthy (PStr s) = (s \<noteq> [])"
| "truthy (PNum x) = (x \<noteq> 0)"
| "truthy (PBool b) = b"

text \<open>\<open>a or b\<close>.\<close>

definition py_or :: "pyval \<Rightarrow> pyval \<Rightarrow> pyval" where
  "py_or a b = (if truthy a then a else b)"

text \<open>The row of \<open>whale_transactions\<close>.\<close>

record whale_row =
  transaction_hash :: pyval
  timestamp :: string
  blockchain :: string
  token_symbol :: string
  classification :: string
  usd_value :: real
  whale_score :: real
  whale_address :: string
  counterparty_address :: string
  counterparty_type :: pyval
  from_address :: string
  to_address :: string
  reasoning :: string
  confidence :: real
  from_label :: pyval
  to_label :: pyval

text \<open>
  What the writer takes from outside: \<open>str\<close> of a number, \<open>float\<close> of a string (\<open>None\<close>
  for its ValueError), the ISO form of a Unix time (\<open>None\<close> when \<open>fromtimestamp\<close>
  raises), the ISO form of the current time, the upsert of the client (\<open>None\<close> when
  it raises, else whether \<open>result.data\<close> is true), and the runtime.
\<close>

record sink_env =
  sink_rt :: py_runtime
  str_of_num :: "real \<Rightarrow> string"
  float_of_str :: "string \<Rightarrow> real option"
  iso_of :: "real \<Rightarrow> string option"
  now_iso :: string
  upsert :: "whale_row \<Rightarrow> bool option"

definition py_str_of :: "sink_env \<Rightarrow> pyval \<Rightarrow> string" where
  "py_str_of E v =
     (case v of
        PNone \<Rightarrow> ''None''
      | PStr s \<Rightarrow> s
      | PNum x \<Rightarrow> str_of_num E x
      | PBool b \<Rightarrow> (if b then ''True'' else ''False''))"

definition py_float :: "sink_env \<Rightarrow> pyval \<Rightarrow> py_error + real" where
  "py_float E v =
     (case v of
        PNone \<Rightarrow> Inl TypeError
      | PStr s \<Rightarrow> (case float_of_str E s of None \<Rightarrow> Inl ValueError | Some x \<Rightarrow> Inr x)
      | PNum x \<Rightarrow> Inr x
      | PBool b \<Rightarrow> Inr (if b then 1 else 0))"

text \<open>\<open>v.lower() if v else ''\<close>, \<open>v.lower()\<close>, \<open>v.upper()\<close> and \<open>v[:1000] if v else ''\<close>.\<close>

definition lower_or_empty :: "sink_env \<Rightarrow> pyval \<Rightarrow> py_error + string" where
  "lower_or_empty E v =
     (if \<not> truthy v then Inr []
      else (case v of PStr s \<Rightarrow> Inr (py_lower (sink_rt E) s) | _ \<Rightarrow> Inl AttributeError))"

definition str_lower :: "sink_env \<Rightarrow> pyval \<Rightarrow> py_error + string" where
  "str_lower E v =
     (case v of PStr s \<Rightarrow> Inr (py_lower (sink_rt E) s) | _ \<Rightarrow> Inl AttributeError)"

definition str_upper :: "sink_env \<Rightarrow> pyval \<Rightarrow> py_error + string" where
  "str_upper E v =
     (case v of PStr s \<Rightarrow> Inr (py_upper (sink_rt E) s) | _ \<Rightarrow> Inl AttributeError)"

definition first_1000 :: "pyval \<Rightarrow> py_error + string" where
  "first_1000 v =
     (if \<not> truthy v then Inr []
      else (case v of PStr s \<Rightarrow> Inr (take 1000 s) | _ \<Rightarrow> Inl TypeError))"

text \<open>The exception of a step ends the function; otherwise the next step takes its value.\<close>

definition and_then :: "py_error + 'a \<Rightarrow> ('a \<Rightarrow> py_error + 'b) \<Rightarrow> py_error + 'b" where
  "and_then r f = (case r of Inl e \<Rightarrow> Inl e | Inr x \<Rightarrow> f x)"

text \<open>The timestamp: a positive number (milliseconds above \<open>1e12\<close>), or the current time.\<close>

definition ts_iso :: "sink_env \<Rightarrow> pyobj \<Rightarrow> py_error + string" where
  "ts_iso E event =
     (let raw_ts = (case py_get event ''timestamp'' PNone of
                      PNum x \<Rightarrow> if x > 0 then Some x else None
                    | PBool b \<Rightarrow> if b then Some 1 else None
                    | _ \<Rightarrow> None)
      in case raw_ts of
           None \<Rightarrow> Inr (now_iso E)
         | Some t \<Rightarrow>
             (case iso_of E (if t > 1000000000000 then py_div (sink_rt E) t 1000 else t) of
                None \<Rightarrow> Inl ValueError
              | Some s \<Rightarrow> Inr s))"

text \<open>
  The classification, confidence, whale score and reasoning: from a non-empty
  \<open>classification_data\<close>, else from the event when it has the key \<open>classification\<close>, else
  the defaults.
\<close>

definition has_data :: "pyobj option \<Rightarrow> bool" where
  "has_data cd = (case cd of None \<Rightarrow> False | Some d \<Rightarrow> d \<noteq> [])"

definition data_of :: "pyobj option \<Rightarrow> pyobj" where
  "data_of cd = (case cd of None \<Rightarrow> [] | Some d \<Rightarrow> d)"

definition raw_classification :: "pyobj \<Rightarrow> pyobj option \<Rightarrow> pyval \<times> pyval \<times> pyval \<times> pyval" where
  "raw_classification event cd =
     (if has_data cd then
        (py_get (data_of cd) ''classification'' (PStr ''TRANSFER''),
         py_get (data_of cd) ''confidence'' (PNum 0),
         py_get (data_of cd) ''whale_score'' (PNum 0),
         py_get (data_of cd) ''reasoning'' (PStr []))
      else (case map_of event ''classification'' of
              Some c \<Rightarrow>
                (c, py_get event ''confidence'' (PNum 0), py_get event ''whale_score'' (PNum 0),
                 py_get event ''reasoning'' (PStr []))
            | None \<Rightarrow> (PStr ''TRANSFER'', PNum 0, PNum 0, PStr [])))"

text \<open>
  The normalisation: upper case, every \<open>PROBABLE_\<close> removed when the string starts with
  it, and \<open>TRANSFER\<close> for everything that is not \<open>BUY\<close>, \<open>SELL\<close> or \<open>TRANSFER\<close> then.
\<close>

definition normalize_classification :: "sink_env \<Rightarrow> pyval \<Rightarrow> string" where
  "normalize_classification E v =
     (let c = py_upper (sink_rt E) (py_str_of E v);
          c1 = (if take 9 c = ''PROBABLE_'' then remove_all ''PROBABLE_'' c else c)
      in if c1 = ''BUY'' \<or> c1 = ''SELL'' \<or> c1 = ''TRANSFER'' then c1 else ''TRANSFER'')"

text \<open>
  The whale and the counterparty: from \<open>classification_data\<close>, and when that gives no
  whale address, from the direction.
\<close>

definition whale_and_counterparty ::
  "string \<Rightarrow> pyval \<Rightarrow> pyval \<Rightarrow> pyobj option \<Rightarrow> pyval \<times> pyval" where
  "whale_and_counterparty cls from_addr to_addr cd =
     (let wa = (if has_data cd then py_get (data_of cd) ''whale_address'' (PStr []) else PStr []);
          ca = (if has_data cd then py_get (data_of cd) ''counterparty_address'' (PStr [])
                else PStr [])
      in if \<not> truthy wa then
           (if cls = ''BUY'' then (to_addr, from_addr)
            else if cls = ''SELL'' then (from_addr, to_addr)
            else (from_addr, ca))
         else (wa, ca))"

definition map_event_to_whale_row :: "sink_env \<Rightarrow> pyobj \<Rightarrow> pyobj option \<Rightarrow> py_error + whale_row" where
  "map_event_to_whale_row E event cd =
     (let tx_hash = py_get event ''tx_hash'' (py_get event ''hash'' (PStr []))
      in and_then (ts_iso E event) (\<lambda>ts.
         case raw_classification event cd of
           (c, conf, score, reason) \<Rightarrow>
             let cls = normalize_classification E c;
                 from_addr = py_get event ''from'' (py_get event ''from_address'' (PStr []));
                 to_addr = py_get event ''to'' (py_get event ''to_address'' (PStr []))
             in case whale_and_counterparty cls from_addr to_addr cd of
                  (wa, ca) \<Rightarrow>
         and_then (py_float E
                     (py_or (py_get event ''estimated_usd'' (PNum 0))
                        (py_or (py_get event ''usd_value'' (PNum 0))
                           (py_or (py_get event ''value_usd'' (PNum 0)) (PNum 0))))) (\<lambda>usd.
         and_then (str_lower E (py_get event ''blockchain'' (PStr ''unknown''))) (\<lambda>chain.
         and_then (str_upper E (py_get event ''symbol'' (py_get event ''token_symbol'' (PStr [])))) (\<lambda>sym.
         and_then (py_float E score) (\<lambda>ws.
         and_then (lower_or_empty E wa) (\<lambda>wa'.
         and_then (lower_or_empty E ca) (\<lambda>ca'.
         and_then (lower_or_empty E from_addr) (\<lambda>fa.
         and_then (lower_or_empty E to_addr) (\<lambda>ta.
         and_then (first_1000 reason) (\<lambda>rs.
         and_then (py_float E conf) (\<lambda>cf.
           Inr \<lparr> transaction_hash = tx_hash, timestamp = ts, blockchain = chain,
                 token_symbol = sym, classification = cls, usd_value = usd, whale_score = ws,
                 whale_address = wa', counterparty_address = ca',
                 counterparty_type =
                   (if has_data cd then py_get (data_of cd) ''counterparty_type'' (PStr [])
                    else PStr []),
                 from_address = fa, to_address = ta, reasoning = rs, confidence = cf,
                 from_label =
                   (if has_data cd then py_get (data_of cd) ''from_label'' (PStr []) else PStr []),
                 to_label =
                   (if has_data cd then py_get (data_of cd) ''to_label'' (PStr []) else PStr [])
               \<rparr>))))))))))))"

text \<open>
  \<open>store_transaction\<close>: what it returns and the rows it hands to the upsert. \<open>client\<close>
  tells whether \<open>_get_client()\<close> gave a client.
\<close>

definition store_transaction ::
  "sink_env \<Rightarrow> bool \<Rightarrow> pyobj \<Rightarrow> pyobj option \<Rightarrow> bool \<times> whale_row list" where
  "store_transaction E client event cd =
     (if \<not> client then (False, [])
      else (case map_event_to_whale_row E event cd of
              Inl e \<Rightarrow> (False, [])
            | Inr row \<Rightarrow>
                if \<not> truthy (transaction_hash row) then (False, [])
                else if token_symbol row = [] then (False, [])
                else (case upsert E row of
                        None \<Rightarrow> (False, [row])
                      | Some data \<Rightarrow> (data, [row]))))"

text \<open>A concrete environment and an event without a transaction hash.\<close>

definition sink_env0 :: sink_env where
  "sink_env0 = \<lparr> sink_rt = plain_runtime, str_of_num = (\<lambda>x. ''0''), float_of_str = (\<lambda>s. None),
                 iso_of = (\<lambda>t. Some ''2023-11-14T22:13:20+00:00''),
                 now_iso = ''2023-11-14T22:13:20+00:00'', upsert = (\<lambda>row. Some True) \<rparr>"

definition event_no_hash :: pyobj where
  "event_no_hash = [(''symbol'', PStr ''bonk''), (''classification'', PStr ''probable_buy''),
                    (''from'', PStr ''A''), (''to'', PStr ''B''), (''usd_value'', PNum 750000)]"

section \<open>Properties of the gateway\<close>

lemma can_request_over_budget:
  "cu_used (rate_limiter w) + c > monthly_budget (rate_limiter w) \<Longrightarrow> can_request clk c w = (False, w)"
  by (simp add: can_request_def Let_def)

lemma wait_over_budget:
  "cu_used (rate_limiter w) + c > monthly_budget (rate_limiter w) \<Longrightarrow>
   wait_if_needed clk n c w = Blocked (w\<lparr> slept := slept w + n \<rparr>)"
proof (induction n arbitrary: w)
  case 0
  then show ?case by (simp add: can_request_over_budget)
next
  case (Suc n)
  have "cu_used (rate_limiter (w\<lparr> slept := Suc (slept w) \<rparr>)) + c
          > monthly_budget (rate_limiter (w\<lparr> slept := Suc (slept w) \<rparr>))"
    using Suc.prems by simp
  from Suc.IH [OF this] show ?case
    using Suc.prems by (simp add: can_request_over_budget)
qed


lemma can_request_facts:
  assumes "can_request clk c w = (b, w')"
  shows "max_rps (rate_limiter w') = max_rps (rate_limiter w)"
    and "monthly_budget (rate_limiter w') = monthly_budget (rate_limiter w)"
    and "cu_used (rate_limiter w') = cu_used (rate_limiter w)"
    and "slept w' = slept w"
    and "b \<Longrightarrow> cu_used (rate_limiter w) + c \<le> monthly_budget (rate_limiter w)"
    and "b \<Longrightarrow> requests_in_window (rate_limiter w') < max_rps (rate_limiter w)"
    and "window_start (rate_limiter w) \<le> window_start (rate_limiter w')"
    and "window_start (rate_limiter w') = window_start (rate_limiter w) \<Longrightarrow>
           requests_in_window (rate_limiter w') = requests_in_window (rate_limiter w)"
    and "0 \<le> requests_in_window (rate_limiter w) \<Longrightarrow> 0 \<le> requests_in_window (rate_limiter w')"
    and "b \<Longrightarrow> tick w' = Suc (tick w) \<and> clk (tick w) - window_start (rate_limiter w') < 1"
    and "0 \<le> requests_in_window (rate_limiter w) \<Longrightarrow>
           requests_in_window (rate_limiter w') \<le> requests_in_window (rate_limiter w)"
  using assms by (auto simp: can_request_def Let_def split: if_splits)

lemma record_request_facts:
  assumes "record_request clk c w = out"
  shows "max_rps (rate_limiter (world_of out)) = max_rps (rate_limiter w)"
    and "monthly_budget (rate_limiter (world_of out)) = monthly_budget (rate_limiter w)"
    and "cu_used (rate_limiter (world_of out)) = cu_used (rate_limiter w) + c"
    and "window_start (rate_limiter (world_of out)) = window_start (rate_limiter w)"
    and "requests_in_window (rate_limiter (world_of out)) = requests_in_window (rate_limiter w) + 1"
    and "tick (world_of out) = Suc (tick w)"
    and "\<forall>w'. out \<noteq> Blocked w'"
  using assms by (auto simp: record_request_def Let_def split: if_splits)

lemma exclusive_iff:
  "exclusive i s \<longleftrightarrow> (\<forall>j<length (phases s). phases s ! j = Passed \<longrightarrow> j = i)"
  by (auto simp: exclusive_def list_all_iff)

lemma exclusive_none_passed:
  assumes "exclusive i s" and "i < length (phases s)" and "phases s ! i \<noteq> Passed"
  shows "Passed \<notin> set (phases s)"
  using assms by (auto simp: exclusive_iff in_set_conv_nth)

lemma exclusive_only_passed:
  assumes "exclusive i s" and "x \<noteq> Passed"
  shows "Passed \<notin> set ((phases s)[i := x])"
proof
  assume "Passed \<in> set ((phases s)[i := x])"
  then obtain j where j: "j < length (phases s)" "(phases s)[i := x] ! j = Passed"
    by (auto simp: in_set_conv_nth)
  show False
  proof (cases "j = i")
    case True
    then show ?thesis using j assms(2) by simp
  next
    case False
    then have "phases s ! j = Passed" using j by simp
    then show ?thesis using assms(1) j(1) False by (simp add: exclusive_iff)
  qed
qed

text \<open>The five kinds of step.\<close>

lemma step_kinds:
  obtains (idle) "step clk cs i s = s" "\<not> admits clk cs i s"
        "\<not> (i < length (phases s) \<and> i < length cs \<and> (phases s ! i = Checking \<or> phases s ! i = Passed))"
  | (pass) w' where "i < length (phases s)" "i < length cs" "phases s ! i = Checking"
        "can_request clk (cs ! i) (shared s) = (True, w')"
        "step clk cs i s = s\<lparr> shared := w', phases := (phases s)[i := Passed] \<rparr>"
        "admits clk cs i s"
  | (retry) w' where "i < length (phases s)" "i < length cs" "phases s ! i = Checking"
        "can_request clk (cs ! i) (shared s) = (False, w')"
        "step clk cs i s = s\<lparr> shared := w'\<lparr> slept := Suc (slept w') \<rparr> \<rparr>"
        "\<not> admits clk cs i s"
  | (recorded) x where "i < length (phases s)" "i < length cs" "phases s ! i = Passed" "x \<noteq> Passed"
        "shared (step clk cs i s) = world_of (record_request clk (cs ! i) (shared s))"
        "phases (step clk cs i s) = (phases s)[i := x]"
        "\<not> admits clk cs i s"
proof (cases "i < length (phases s) \<and> i < length cs")
  case False
  show ?thesis by (rule idle) (use False in \<open>auto simp: step_def admits_def\<close>)
next
  case True
  show ?thesis
  proof (cases "phases s ! i")
    case Checking
    obtain b w' where cr: "can_request clk (cs ! i) (shared s) = (b, w')"
      by (cases "can_request clk (cs ! i) (shared s)")
    show ?thesis
    proof (cases b)
      case True
      show ?thesis
        by (rule pass [of w'])
          (use cr Checking True \<open>i < length (phases s) \<and> i < length cs\<close> in
            \<open>simp_all add: step_def admits_def\<close>)
    next
      case False
      show ?thesis
        by (rule retry [of w'])
          (use cr Checking False \<open>i < length (phases s) \<and> i < length cs\<close> in
            \<open>simp_all add: step_def admits_def\<close>)
    qed
  next
    case Passed
    show ?thesis
    proof (cases "record_request clk (cs ! i) (shared s)")
      case (Admitted w')
      show ?thesis
        by (rule recorded [of Returned])
          (use Admitted Passed True in \<open>simp_all add: step_def admits_def\<close>)
    next
      case (Blocked w')
      then show ?thesis using record_request_facts(7) [OF refl, of clk "cs ! i" "shared s"] by simp
    next
      case (Raised w')
      show ?thesis
        by (rule recorded [of Failed])
          (use Raised Passed True in \<open>simp_all add: step_def admits_def\<close>)
    qed
  next
    case Returned
    show ?thesis by (rule idle) (use Returned True in \<open>simp_all add: step_def admits_def\<close>)
  next
    case Failed
    show ?thesis by (rule idle) (use Failed True in \<open>simp_all add: step_def admits_def\<close>)
  qed
qed

text \<open>
  A caller that takes all the steps does what \<open>wait_if_needed\<close> does: it returns or
  raises after at most \<open>n + 1\<close> tries and one record, or it is still in its loop after
  \<open>n + 1\<close> tries.
\<close>

lemma idle_run:
  "phases s ! i = Returned \<or> phases s ! i = Failed \<Longrightarrow> run clk cs (replicate k i) s = s"
proof (induction k)
  case 0
  then show ?case by simp
next
  case (Suc k)
  have "step clk cs i s = s" using Suc.prems by (auto simp: step_def)
  then show ?case using Suc by simp
qed

lemma caller_alone:
  assumes "i < length (phases s)" and "i < length cs" and "phases s ! i = Checking"
  shows "case wait_if_needed clk n (cs ! i) (shared s) of
           Admitted w' \<Rightarrow>
             run clk cs (replicate (n + 2) i) s
               = s\<lparr> shared := w', phases := (phases s)[i := Returned] \<rparr>
         | Raised w' \<Rightarrow>
             run clk cs (replicate (n + 2) i) s
               = s\<lparr> shared := w', phases := (phases s)[i := Failed] \<rparr>
         | Blocked w' \<Rightarrow>
             run clk cs (replicate (n + 1) i) s
               = s\<lparr> shared := w'\<lparr> slept := Suc (slept w') \<rparr> \<rparr>"
  using assms
proof (induction n arbitrary: s)
  case 0
  obtain b w' where cr: "can_request clk (cs ! i) (shared s) = (b, w')"
    by (cases "can_request clk (cs ! i) (shared s)")
  show ?case
  proof (cases b)
    case True
    let ?s1 = "s\<lparr> shared := w', phases := (phases s)[i := Passed] \<rparr>"
    have s1: "step clk cs i s = ?s1" using 0 cr True by (simp add: step_def)
    have nb: "record_request clk (cs ! i) w' \<noteq> Blocked w''" for w''
      using record_request_facts(7) [OF refl, of clk "cs ! i" w'] by simp
    show ?thesis
    proof (cases "record_request clk (cs ! i) w'")
      case (Admitted w'')
      then show ?thesis using 0 cr True s1 by (simp add: step_def numeral_2_eq_2)
    next
      case (Blocked w'')
      then show ?thesis using nb by simp
    next
      case (Raised w'')
      then show ?thesis using 0 cr True s1 by (simp add: step_def numeral_2_eq_2)
    qed
  next
    case False
    then show ?thesis using 0 cr by (simp add: step_def)
  qed
next
  case (Suc n)
  obtain b w' where cr: "can_request clk (cs ! i) (shared s) = (b, w')"
    by (cases "can_request clk (cs ! i) (shared s)")
  show ?case
  proof (cases b)
    case True
    let ?s1 = "s\<lparr> shared := w', phases := (phases s)[i := Passed] \<rparr>"
    have s1: "step clk cs i s = ?s1" using Suc.prems cr True by (simp add: step_def)
    have nb: "record_request clk (cs ! i) w' \<noteq> Blocked w''" for w''
      using record_request_facts(7) [OF refl, of clk "cs ! i" w'] by simp
    have r: "replicate (Suc n + 2) i = i # i # replicate (Suc n) i" by simp
    show ?thesis
    proof (cases "record_request clk (cs ! i) w'")
      case (Admitted w'')
      let ?s2 = "s\<lparr> shared := w'', phases := (phases s)[i := Returned] \<rparr>"
      have s2: "step clk cs i ?s1 = ?s2" using Suc.prems Admitted by (simp add: step_def)
      have "run clk cs (replicate (Suc n) i) ?s2 = ?s2"
        by (rule idle_run) (use Suc.prems in simp)
      then show ?thesis unfolding r using cr True Admitted s1 s2 by simp
    next
      case (Blocked w'')
      then show ?thesis using nb by simp
    next
      case (Raised w'')
      let ?s2 = "s\<lparr> shared := w'', phases := (phases s)[i := Failed] \<rparr>"
      have s2: "step clk cs i ?s1 = ?s2" using Suc.prems Raised by (simp add: step_def)
      have "run clk cs (replicate (Suc n) i) ?s2 = ?s2"
        by (rule idle_run) (use Suc.prems in simp)
      then show ?thesis unfolding r using cr True Raised s1 s2 by simp
    qed
  next
    case False
    let ?s1 = "s\<lparr> shared := w'\<lparr> slept := Suc (slept w') \<rparr> \<rparr>"
    have s1: "step clk cs i s = ?s1" using Suc.prems cr False by (simp add: step_def)
    have ih: "case wait_if_needed clk n (cs ! i) (shared ?s1) of
           Admitted w'' \<Rightarrow>
             run clk cs (replicate (n + 2) i) ?s1
               = ?s1\<lparr> shared := w'', phases := (phases ?s1)[i := Returned] \<rparr>
         | Raised w'' \<Rightarrow>
             run clk cs (replicate (n + 2) i) ?s1
               = ?s1\<lparr> shared := w'', phases := (phases ?s1)[i := Failed] \<rparr>
         | Blocked w'' \<Rightarrow>
             run clk cs (replicate (n + 1) i) ?s1
               = ?s1\<lparr> shared := w''\<lparr> slept := Suc (slept w'') \<rparr> \<rparr>"
      by (rule Suc.IH) (use Suc.prems in simp_all)
    have w: "wait_if_needed clk (Suc n) (cs ! i) (shared s)
               = wait_if_needed clk n (cs ! i) (shared ?s1)"
      using cr False by simp
    show ?thesis
      unfolding w using ih s1
      by (cases "wait_if_needed clk n (cs ! i) (shared ?s1)") simp_all
  qed
qed

text \<open>One step of a schedule without overlap keeps the budget invariant.\<close>

lemma step_budget:
  assumes ex: "exclusive i s"
    and le: "cu_used (rate_limiter (shared s)) \<le> monthly_budget (rate_limiter (shared s))"
    and pa: "\<forall>j<length (phases s). phases s ! j = Passed \<longrightarrow>
               cu_used (rate_limiter (shared s)) + cs ! j \<le> monthly_budget (rate_limiter (shared s))"
    and s': "s' = step clk cs i s"
  shows "cu_used (rate_limiter (shared s')) \<le> monthly_budget (rate_limiter (shared s'))"
    and "\<forall>j<length (phases s'). phases s' ! j = Passed \<longrightarrow>
               cu_used (rate_limiter (shared s')) + cs ! j \<le> monthly_budget (rate_limiter (shared s'))"
    and "monthly_budget (rate_limiter (shared s')) = monthly_budget (rate_limiter (shared s))"
    and "length (phases s') = length (phases s)"
proof -
  have "cu_used (rate_limiter (shared s')) \<le> monthly_budget (rate_limiter (shared s'))
      \<and> (\<forall>j<length (phases s'). phases s' ! j = Passed \<longrightarrow>
               cu_used (rate_limiter (shared s')) + cs ! j \<le> monthly_budget (rate_limiter (shared s')))
      \<and> monthly_budget (rate_limiter (shared s')) = monthly_budget (rate_limiter (shared s))
      \<and> length (phases s') = length (phases s)"
  proof (cases rule: step_kinds [of clk cs i s])
    case idle
    then show ?thesis using le pa s' by simp
  next
    case (pass w')
    have none: "Passed \<notin> set (phases s)"
      using exclusive_none_passed [OF ex pass(1)] pass(3) by simp
    have old: "\<And>j. j < length (phases s) \<Longrightarrow> phases s ! j \<noteq> Passed"
      using none by (auto simp: in_set_conv_nth)
    have "\<And>j. j < length (phases s) \<Longrightarrow> (phases s)[i := Passed] ! j = Passed \<Longrightarrow> j = i"
      using old by (metis nth_list_update_neq)
    then show ?thesis
      using le s' pass(5) can_request_facts(2,3,5) [OF pass(4)] by auto
  next
    case (retry w')
    then show ?thesis
      using le pa s' can_request_facts(2,3) [OF retry(4)] by simp
  next
    case (recorded x)
    have none: "Passed \<notin> set ((phases s)[i := x])"
      by (rule exclusive_only_passed [OF ex recorded(4)])
    have new: "\<And>j. j < length (phases s) \<Longrightarrow> (phases s)[i := x] ! j \<noteq> Passed"
      using none by (metis length_list_update nth_mem)
    have "cu_used (rate_limiter (shared s)) + cs ! i \<le> monthly_budget (rate_limiter (shared s))"
      using pa recorded(1,3) by simp
    then show ?thesis
      using s' recorded(5,6) new
        record_request_facts(2,3) [OF refl, of clk "cs ! i" "shared s"] by simp
  qed
  then show "cu_used (rate_limiter (shared s')) \<le> monthly_budget (rate_limiter (shared s'))"
    and "\<forall>j<length (phases s'). phases s' ! j = Passed \<longrightarrow>
               cu_used (rate_limiter (shared s')) + cs ! j \<le> monthly_budget (rate_limiter (shared s'))"
    and "monthly_budget (rate_limiter (shared s')) = monthly_budget (rate_limiter (shared s))"
    and "length (phases s') = length (phases s)"
    by blast+
qed

lemma run_budget:
  assumes "serial clk cs sched s"
    and "cu_used (rate_limiter (shared s)) \<le> monthly_budget (rate_limiter (shared s))"
    and "\<forall>j<length (phases s). phases s ! j = Passed \<longrightarrow>
               cu_used (rate_limiter (shared s)) + cs ! j \<le> monthly_budget (rate_limiter (shared s))"
  shows "cu_used (rate_limiter (shared (run clk cs sched s)))
           \<le> monthly_budget (rate_limiter (shared s))
       \<and> monthly_budget (rate_limiter (shared (run clk cs sched s)))
           = monthly_budget (rate_limiter (shared s))
       \<and> length (phases (run clk cs sched s)) = length (phases s)"
  using assms
proof (induction sched arbitrary: s)
  case Nil
  then show ?case by simp
next
  case (Cons i sched)
  have ex: "exclusive i s" and se: "serial clk cs sched (step clk cs i s)"
    using Cons.prems(1) by simp_all
  note st = step_budget [OF ex Cons.prems(2) Cons.prems(3) refl, of clk]
  from Cons.IH [OF se st(1) st(2)] st(3) st(4) show ?case by simp
qed

text \<open>A caller whose cost would cross the budget only sleeps, however often it tries.\<close>

lemma retries_over_budget:
  assumes "i < length (phases s)" and "i < length cs" and "phases s ! i = Checking"
    and "cu_used (rate_limiter (shared s)) + cs ! i > monthly_budget (rate_limiter (shared s))"
  shows "run clk cs (replicate n i) s = s\<lparr> shared := (shared s)\<lparr> slept := slept (shared s) + n \<rparr> \<rparr>"
  using assms
proof (induction n arbitrary: s)
  case 0
  then show ?case by simp
next
  case (Suc n)
  let ?s1 = "s\<lparr> shared := (shared s)\<lparr> slept := Suc (slept (shared s)) \<rparr> \<rparr>"
  have st: "step clk cs i s = ?s1"
    using Suc.prems by (simp add: step_def can_request_over_budget)
  have "run clk cs (replicate n i) ?s1
          = ?s1\<lparr> shared := (shared ?s1)\<lparr> slept := slept (shared ?s1) + n \<rparr> \<rparr>"
    by (rule Suc.IH) (use Suc.prems in simp_all)
  then show ?case by (simp add: st)
qed

text \<open>One step of a schedule without overlap and the window.\<close>

lemma step_window:
  assumes ex: "exclusive i s"
    and inv: "0 \<le> wcount s" "wcount s + pend s \<le> wceil s"
    and s': "s' = step clk cs i s"
  shows "wceil s' = wceil s"
    and "wstart s \<le> wstart s'"
    and "0 \<le> wcount s'"
    and "wcount s' + pend s' \<le> wceil s'"
    and "wstart s' = wstart s \<Longrightarrow>
           wcount s' + pend s' = wcount s + pend s + (if admits clk cs i s then 1 else 0)"
    and "admits clk cs i s \<Longrightarrow> pend s' = 1 \<and> clk (tick (shared s)) - wstart s' < 1"
proof -
  have "wceil s' = wceil s \<and> wstart s \<le> wstart s' \<and> 0 \<le> wcount s'
      \<and> wcount s' + pend s' \<le> wceil s'
      \<and> (wstart s' = wstart s \<longrightarrow>
           wcount s' + pend s' = wcount s + pend s + (if admits clk cs i s then 1 else 0))
      \<and> (admits clk cs i s \<longrightarrow> pend s' = 1 \<and> clk (tick (shared s)) - wstart s' < 1)"
  proof (cases rule: step_kinds [of clk cs i s])
    case idle
    then show ?thesis using inv s' by simp
  next
    case (pass w')
    have none: "Passed \<notin> set (phases s)"
      using exclusive_none_passed [OF ex pass(1)] pass(3) by simp
    have p0: "pend s = 0" using none by (simp add: pend_def)
    have p1: "pend s' = 1"
      using s' pass(5) pass(1) by (simp add: pend_def set_update_memI)
    show ?thesis
      using inv s' pass(5,6) p0 p1 can_request_facts [OF pass(4)]
      by (auto simp: wstart_def wcount_def wceil_def)
  next
    case (retry w')
    have pe: "pend s' = pend s" using s' retry(5) by (simp add: pend_def)
    have "pend s = 0 \<or> pend s = 1" by (simp add: pend_def)
    then show ?thesis
      using inv s' retry(5,6) pe can_request_facts [OF retry(4)]
      by (auto simp: wstart_def wcount_def wceil_def)
  next
    case (recorded x)
    have none: "Passed \<notin> set ((phases s)[i := x])"
      by (rule exclusive_only_passed [OF ex recorded(4)])
    have p0: "pend s' = 0" using none recorded(6) s' by (simp add: pend_def)
    have "Passed \<in> set (phases s)" using recorded(1,3) by (metis nth_mem)
    then have p1: "pend s = 1" by (simp add: pend_def)
    show ?thesis
      using inv recorded(5,7) p0 p1
        record_request_facts [OF refl, of clk "cs ! i" "shared s"]
      by (auto simp: wstart_def wcount_def wceil_def s')
  qed
  then show "wceil s' = wceil s"
    and "wstart s \<le> wstart s'"
    and "0 \<le> wcount s'"
    and "wcount s' + pend s' \<le> wceil s'"
    and "wstart s' = wstart s \<Longrightarrow>
           wcount s' + pend s' = wcount s + pend s + (if admits clk cs i s then 1 else 0)"
    and "admits clk cs i s \<Longrightarrow> pend s' = 1 \<and> clk (tick (shared s)) - wstart s' < 1"
    by blast+
qed

lemma admissions_window:
  assumes "serial clk cs sched s" and "0 \<le> wcount s" and "wcount s + pend s \<le> wceil s"
  shows "(\<forall>a \<in> set (admissions clk cs sched s). wstart s \<le> snd a \<and> fst a - snd a < 1)
       \<and> int (admitted_in_limiter_window v (admissions clk cs sched s))
            \<le> wceil s - (if v = wstart s then wcount s + pend s else 0)"
  using assms
proof (induction sched arbitrary: s)
  case Nil
  have "0 \<le> pend s" by (simp add: pend_def)
  with Nil show ?case by (simp add: admitted_in_limiter_window_def)
next
  case (Cons i sched)
  define s' where "s' = step clk cs i s"
  have ex: "exclusive i s" and se: "serial clk cs sched s'"
    using Cons.prems(1) by (simp_all add: s'_def)
  note st = step_window [OF ex Cons.prems(2) Cons.prems(3) s'_def]
  have ih: "\<forall>a \<in> set (admissions clk cs sched s'). wstart s' \<le> snd a \<and> fst a - snd a < 1"
    and ihc: "int (admitted_in_limiter_window v (admissions clk cs sched s'))
            \<le> wceil s' - (if v = wstart s' then wcount s' + pend s' else 0)"
    using Cons.IH [OF se st(3) st(4)] by simp_all
  have zero: "v < wstart s' \<Longrightarrow> admitted_in_limiter_window v (admissions clk cs sched s') = 0"
    using ih by (auto simp: admitted_in_limiter_window_def filter_empty_conv)
  have pe: "0 \<le> pend s" "0 \<le> pend s'" by (simp_all add: pend_def)
  have adm: "admissions clk cs (i # sched) s
        = (if admits clk cs i s then [(clk (tick (shared s)), wstart s')] else [])
          @ admissions clk cs sched s'"
    by (simp add: s'_def wstart_def)
  have cnt: "int (admitted_in_limiter_window v (admissions clk cs (i # sched) s))
         = (if admits clk cs i s \<and> v = wstart s' then 1 else 0)
           + int (admitted_in_limiter_window v (admissions clk cs sched s'))"
    unfolding adm admitted_in_limiter_window_def by auto
  have part1: "\<forall>a \<in> set (admissions clk cs (i # sched) s). wstart s \<le> snd a \<and> fst a - snd a < 1"
    unfolding adm using ih st(2) st(6) by auto
  have part2: "int (admitted_in_limiter_window v (admissions clk cs (i # sched) s))
            \<le> wceil s - (if v = wstart s then wcount s + pend s else 0)"
  proof (cases "v = wstart s'")
    case True
    show ?thesis
    proof (cases "wstart s' = wstart s")
      case same: True
      then show ?thesis using True cnt ihc st(1) st(5) by auto
    next
      case False
      then show ?thesis using True cnt ihc st(1) st(3) st(6) pe by auto
    qed
  next
    case False
    show ?thesis
    proof (cases "v = wstart s")
      case True
      then have "v < wstart s'" using False st(2) by simp
      from zero [OF this] show ?thesis using cnt False True Cons.prems(2,3) pe by simp
    next
      case F2: False
      then show ?thesis using cnt False ihc st(1) by simp
    qed
  qed
  from part1 part2 show ?case by blast
qed

lemma burst_admissions:
  "admissions clk_burst burst_costs burst_sched (start clk_burst 2 100 burst_costs)
     = [(9/10, 0), (19/20, 0), (1, 1), (21/20, 1)]"
  by (simp add: burst_costs_def burst_sched_def start_def admits_def step_def clk_burst_def
        init_limiter_def can_request_def record_request_def Let_def)

lemma burst_serial:
  "serial clk_burst burst_costs burst_sched (start clk_burst 2 100 burst_costs)"
  by (simp add: burst_costs_def burst_sched_def start_def exclusive_def step_def clk_burst_def
        init_limiter_def can_request_def record_request_def Let_def upt_rec)

lemma crossing_serial:
  "serial clk_burst crossing_costs burst_sched (start clk_burst 2 100 crossing_costs)"
  by (simp add: crossing_costs_def burst_sched_def start_def exclusive_def step_def clk_burst_def
        init_limiter_def can_request_def record_request_def Let_def upt_rec)

lemma crossing_run:
  "cu_used (rate_limiter (shared after_burst)) = 4"
  "phases after_burst = [Returned, Returned, Returned, Returned, Checking]"
  by (simp_all add: after_burst_def crossing_costs_def burst_sched_def start_def step_def
        clk_burst_def init_limiter_def can_request_def record_request_def Let_def)

lemma race_run:
  "cu_used (rate_limiter (shared (run clk_burst race_costs race_sched
      (start clk_burst 1 100 race_costs)))) = 120
   \<and> phases (run clk_burst race_costs race_sched (start clk_burst 1 100 race_costs))
       = [Returned, Returned]"
  by (simp add: race_costs_def race_sched_def start_def step_def clk_burst_def
        init_limiter_def can_request_def record_request_def Let_def)

lemma race_admissions:
  "admissions clk_burst race_costs race_sched (start clk_burst 1 100 race_costs)
     = [(9/10, 0), (37/40, 0)]"
  by (simp add: race_costs_def race_sched_def start_def admits_def step_def clk_burst_def
        init_limiter_def can_request_def record_request_def Let_def)

subsection \<open>C1: an acquire that would cross the monthly budget\<close>

text \<open>
  C1, as the spec states it, says that \<open>wait_if_needed\<close> returns a refusal at once when
  used cost plus requested cost exceeds the monthly budget. The loop of the source has
  no such return: on a fresh limiter with budget 100, a request of cost 101 has slept
  three times after three rounds and is still in the loop, with nothing consumed.
\<close>

theorem over_budget_acquire_waits_counterexample:
  "cu_used (rate_limiter (init_limiter clk_burst 2 100)) + 101
      > monthly_budget (rate_limiter (init_limiter clk_burst 2 100))
   \<and> is_blocked (wait_if_needed clk_burst 3 101 (init_limiter clk_burst 2 100))
   \<and> slept (world_of (wait_if_needed clk_burst 3 101 (init_limiter clk_burst 2 100))) = 3
   \<and> cu_used (rate_limiter (world_of (wait_if_needed clk_burst 3 101 (init_limiter clk_burst 2 100)))) = 0"
  by (simp add: init_limiter_def can_request_def Let_def numeral_3_eq_3)

text \<open>
  C1 as amended: in every limiter state in which used cost plus requested cost exceeds
  the monthly budget, \<open>wait_if_needed\<close> does not return, whatever the number of retries:
  after \<open>n\<close> rounds it has slept \<open>n\<close> times, has read no clock and has left the limiter
  (so the used cost) as it was. It consumes nothing, and it blocks the caller.
\<close>

theorem over_budget_acquire_blocks:
  "cu_used (rate_limiter w) + c > monthly_budget (rate_limiter w) \<Longrightarrow>
   wait_if_needed clk n c w = Blocked (w\<lparr> slept := slept w + n \<rparr>)"
  by (rule wait_over_budget)

theorem over_budget_acquire_blocks_witness:
  "cu_used (rate_limiter (init_limiter clk_burst 20 100)) + 150
      > monthly_budget (rate_limiter (init_limiter clk_burst 20 100))
   \<and> wait_if_needed clk_burst 5 150 (init_limiter clk_burst 20 100)
       = Blocked ((init_limiter clk_burst 20 100)
                    \<lparr> slept := slept (init_limiter clk_burst 20 100) + 5 \<rparr>)"
proof -
  have h: "cu_used (rate_limiter (init_limiter clk_burst 20 100)) + 150
             > monthly_budget (rate_limiter (init_limiter clk_burst 20 100))"
    by (simp add: init_limiter_def)
  from over_budget_acquire_blocks [OF h, of clk_burst 5] h show ?thesis by simp
qed

subsection \<open>C2: the per-second ceiling\<close>

text \<open>
  C2, as the spec states it, bounds the calls admitted in any rolling second by
  \<open>max_rps\<close>. The limiter counts per window of its own, and a window ends when a call
  finds it one second old: with \<open>max_rps = 2\<close>, two calls at 0.9 s and 0.95 s close one
  window and two calls at 1.0 s and 1.05 s open the next, so four calls that acquire one
  after the other are admitted in the rolling second that starts at 0.9 s. And with
  \<open>max_rps = 1\<close>, two callers that both check before either records are both admitted,
  at 0.9 s and 0.925 s.
\<close>

theorem rolling_second_counterexample:
  "serial clk_burst burst_costs burst_sched (start clk_burst 2 100 burst_costs)
   \<and> int (admitted_in_rolling_second (9/10)
          (admissions clk_burst burst_costs burst_sched (start clk_burst 2 100 burst_costs)))
     > max_rps (rate_limiter (shared (start clk_burst 2 100 burst_costs)))
   \<and> int (admitted_in_rolling_second (9/10)
          (admissions clk_burst race_costs race_sched (start clk_burst 1 100 race_costs)))
     > max_rps (rate_limiter (shared (start clk_burst 1 100 race_costs)))"
  unfolding burst_admissions race_admissions admitted_in_rolling_second_def
  using burst_serial by (simp add: start_def init_limiter_def)

text \<open>
  C2 as amended: for every schedule of acquires on a fresh limiter with a ceiling
  \<open>max_rps \<ge> 0\<close> in which acquires do not overlap (no step of another caller comes
  between a caller's admitting \<open>can_request\<close> and its \<open>record_request\<close>), the number of
  calls admitted within any one of the limiter's own reset windows never exceeds
  \<open>max_rps\<close>, and every call is admitted less than one second after the opening of the
  window it is counted in.
\<close>

theorem admitted_per_limiter_window:
  assumes "0 \<le> mrps"
    and "serial clk cs sched (start clk mrps budget cs)"
  shows "int (admitted_in_limiter_window v
                (admissions clk cs sched (start clk mrps budget cs))) \<le> mrps
       \<and> list_all (\<lambda>a. fst a - snd a < 1) (admissions clk cs sched (start clk mrps budget cs))"
proof -
  have c: "wceil (start clk mrps budget cs) = mrps"
    and r: "wcount (start clk mrps budget cs) = 0"
    and p: "pend (start clk mrps budget cs) = 0"
    by (simp_all add: wceil_def wcount_def pend_def start_def init_limiter_def)
  have i1: "0 \<le> wcount (start clk mrps budget cs)" using r by simp
  have i2: "wcount (start clk mrps budget cs) + pend (start clk mrps budget cs)
              \<le> wceil (start clk mrps budget cs)"
    using assms(1) c r p by simp
  have z: "(if v = wstart (start clk mrps budget cs)
            then wcount (start clk mrps budget cs) + pend (start clk mrps budget cs) else 0) = 0"
    using r p by simp
  from admissions_window [OF assms(2) i1 i2, of v]
  have "int (admitted_in_limiter_window v
                (admissions clk cs sched (start clk mrps budget cs))) \<le> mrps"
    and "\<forall>a \<in> set (admissions clk cs sched (start clk mrps budget cs)). fst a - snd a < 1"
    unfolding z c by simp_all
  then show ?thesis by (simp add: list_all_iff)
qed

theorem admitted_per_limiter_window_witness:
  "(0::int) \<le> 2
   \<and> serial clk_burst burst_costs burst_sched (start clk_burst 2 100 burst_costs)
   \<and> admitted_in_limiter_window 1
        (admissions clk_burst burst_costs burst_sched (start clk_burst 2 100 burst_costs)) = 2
   \<and> int (admitted_in_limiter_window 1
        (admissions clk_burst burst_costs burst_sched (start clk_burst 2 100 burst_costs))) \<le> 2
   \<and> list_all (\<lambda>a. fst a - snd a < 1)
        (admissions clk_burst burst_costs burst_sched (start clk_burst 2 100 burst_costs))"
proof -
  have h: "(0::int) \<le> 2" by simp
  have n: "admitted_in_limiter_window 1
        (admissions clk_burst burst_costs burst_sched (start clk_burst 2 100 burst_costs)) = 2"
    unfolding burst_admissions admitted_in_limiter_window_def by simp
  from admitted_per_limiter_window [OF h burst_serial, of 1] h n burst_serial
  show ?thesis by simp
qed

subsection \<open>C3: the monthly budget\<close>

text \<open>
  C3, as the spec states it, has \<open>cu_used\<close> at most the monthly budget after every
  sequence of acquires, and has the acquire that would cross the budget refused. Two
  callers of cost 60 on a budget of 100 that both check before either records are both
  admitted and leave \<open>cu_used = 120\<close>; and a caller of cost 101 is not refused: after three
  tries it is still in its loop.
\<close>

theorem overlapping_acquires_counterexample:
  "cu_used (rate_limiter (shared (run clk_burst race_costs race_sched
      (start clk_burst 1 100 race_costs))))
     > monthly_budget (rate_limiter (shared (run clk_burst race_costs race_sched
      (start clk_burst 1 100 race_costs))))
   \<and> phases (run clk_burst race_costs race_sched (start clk_burst 1 100 race_costs))
       = [Returned, Returned]
   \<and> phases (run clk_burst [101] [0, 0, 0] (start clk_burst 1 100 [101])) = [Checking]
   \<and> slept (shared (run clk_burst [101] [0, 0, 0] (start clk_burst 1 100 [101]))) = 3"
  by (simp add: race_costs_def race_sched_def start_def step_def clk_burst_def
        init_limiter_def can_request_def record_request_def Let_def)

text \<open>
  C3 as amended: after every schedule of acquires on a fresh limiter (with a budget
  that is not negative) in which acquires do not overlap, the recorded cost \<open>cu_used\<close> is
  at most the monthly budget; and a caller whose cost would cross the budget from there
  is not admitted and not refused: each of its tries only adds a sleep, it stays in its
  retry loop, and \<open>cu_used\<close> and the rest of the limiter stay exactly as they were,
  whatever the number of tries.
\<close>

theorem budget_kept_without_overlap:
  assumes "0 \<le> budget"
    and "serial clk cs sched (start clk mrps budget cs)"
    and "s = run clk cs sched (start clk mrps budget cs)"
  shows "cu_used (rate_limiter (shared s)) \<le> budget
       \<and> (\<forall>i<length cs. phases s ! i = Checking
                \<and> cu_used (rate_limiter (shared s)) + cs ! i > budget \<longrightarrow>
            run clk cs (replicate n i) s
              = s\<lparr> shared := (shared s)\<lparr> slept := slept (shared s) + n \<rparr> \<rparr>)"
proof -
  let ?s0 = "start clk mrps budget cs"
  have le0: "cu_used (rate_limiter (shared ?s0)) \<le> monthly_budget (rate_limiter (shared ?s0))"
    using assms(1) by (simp add: start_def init_limiter_def)
  have pa0: "\<forall>j<length (phases ?s0). phases ?s0 ! j = Passed \<longrightarrow>
               cu_used (rate_limiter (shared ?s0)) + cs ! j \<le> monthly_budget (rate_limiter (shared ?s0))"
    by (simp add: start_def)
  from run_budget [OF assms(2) le0 pa0]
  have le: "cu_used (rate_limiter (shared s)) \<le> budget"
    and mb: "monthly_budget (rate_limiter (shared s)) = budget"
    and len: "length (phases s) = length cs"
    using assms(3) by (simp_all add: start_def init_limiter_def)
  have "run clk cs (replicate n i) s
          = s\<lparr> shared := (shared s)\<lparr> slept := slept (shared s) + n \<rparr> \<rparr>"
    if "i < length cs" "phases s ! i = Checking" "cu_used (rate_limiter (shared s)) + cs ! i > budget"
    for i
    using that len mb by (intro retries_over_budget) simp_all
  with le show ?thesis by blast
qed

theorem budget_kept_without_overlap_witness:
  "(0::int) \<le> 100
   \<and> serial clk_burst crossing_costs burst_sched (start clk_burst 2 100 crossing_costs)
   \<and> cu_used (rate_limiter (shared after_burst)) = 4
   \<and> cu_used (rate_limiter (shared after_burst)) \<le> 100
   \<and> phases after_burst ! 4 = Checking
   \<and> cu_used (rate_limiter (shared after_burst)) + crossing_costs ! 4 > 100
   \<and> run clk_burst crossing_costs (replicate 7 4) after_burst
        = after_burst\<lparr> shared := (shared after_burst)\<lparr> slept := slept (shared after_burst) + 7 \<rparr> \<rparr>"
proof -
  have h: "(0::int) \<le> 100" by simp
  have a: "after_burst = run clk_burst crossing_costs burst_sched (start clk_burst 2 100 crossing_costs)"
    by (rule after_burst_def)
  have i: "4 < length crossing_costs" "phases after_burst ! 4 = Checking"
    "cu_used (rate_limiter (shared after_burst)) + crossing_costs ! 4 > 100"
    by (simp_all add: crossing_run crossing_costs_def)
  from budget_kept_without_overlap [OF h crossing_serial a, of 7] i
  have "cu_used (rate_limiter (shared after_burst)) \<le> 100"
    and "run clk_burst crossing_costs (replicate 7 4) after_burst
        = after_burst\<lparr> shared := (shared after_burst)\<lparr> slept := slept (shared after_burst) + 7 \<rparr> \<rparr>"
    by blast+
  with h crossing_serial crossing_run(1) i show ?thesis by blast
qed

section \<open>Properties of the Solana poller\<close>

lemma dict_set_new: "k \<notin> set (map fst d) \<Longrightarrow> dict_set d k v = d @ [(k, v)]"
  by (induction d) auto

lemma dict_del_absent: "k \<notin> set (map fst d) \<Longrightarrow> dict_del d k = d"
  by (induction d) (auto simp: dict_del_def)

lemma del_keys_prefix:
  "distinct (map fst d) \<Longrightarrow> del_keys (take n (map fst d)) d = drop n d"
proof (induction d arbitrary: n)
  case Nil
  then show ?case by simp
next
  case (Cons x d)
  show ?case
  proof (cases n)
    case 0
    then show ?thesis by simp
  next
    case (Suc m)
    have "dict_del (x # d) (fst x) = d"
      using Cons.prems dict_del_absent[of "fst x" d] by (simp add: dict_del_def)
    then show ?thesis using Suc Cons by simp
  qed
qed

lemma cache_insert_drop:
  assumes "distinct (map fst cache)" and "sg \<notin> set (map fst cache)"
  shows "cache_insert sg tx cache
           = drop (length (cache @ [(sg, tx)]) - PARSED_CACHE_MAX) (cache @ [(sg, tx)])"
proof -
  define c where "c = cache @ [(sg, tx)]"
  have d: "distinct (map fst c)" using assms by (simp add: c_def)
  have s: "dict_set cache sg tx = c" using dict_set_new[OF assms(2)] by (simp add: c_def)
  have ci: "cache_insert sg tx cache
        = (if length c > PARSED_CACHE_MAX
           then del_keys (take (length c - PARSED_CACHE_MAX) (map fst c)) c else c)"
    unfolding cache_insert_def s Let_def dict_keys_def ..
  show ?thesis
  proof (cases "length c > PARSED_CACHE_MAX")
    case True
    then show ?thesis unfolding ci c_def[symmetric] using del_keys_prefix[OF d] by simp
  next
    case False
    then show ?thesis unfolding ci c_def[symmetric] by simp
  qed
qed

lemma cached_or_fetched_ok:
  assumes "distinct (dict_keys cache)" and "length cache \<le> PARSED_CACHE_MAX"
    and "cached_or_fetched fetch sg cache = Some (tx, cache1)"
  shows "distinct (dict_keys cache1) \<and> length cache1 \<le> PARSED_CACHE_MAX"
proof (cases "map_of cache sg")
  case None
  then have notin: "sg \<notin> set (map fst cache)" by (simp add: map_of_eq_None_iff)
  obtain t where c1: "cache1 = cache_insert sg t cache"
    using assms(3) None by (auto simp: cached_or_fetched_def split: option.splits)
  define c where "c = cache @ [(sg, t)]"
  have e: "cache1 = drop (length c - PARSED_CACHE_MAX) c"
    using cache_insert_drop[OF _ notin, of t] assms(1) c1 by (simp add: dict_keys_def c_def)
  have "distinct (map fst c)" using assms(1) notin by (simp add: dict_keys_def c_def)
  then have "distinct (map fst (drop (length c - PARSED_CACHE_MAX) c))"
    by (metis distinct_drop drop_map)
  then show ?thesis unfolding e by (simp add: dict_keys_def)
next
  case (Some a)
  then show ?thesis using assms by (simp add: cached_or_fetched_def)
qed

lemma process_signatures_cache_ok:
  "distinct (dict_keys cache) \<Longrightarrow> length cache \<le> PARSED_CACHE_MAX \<Longrightarrow>
   distinct (dict_keys (fst (process_signatures fetch tok infos sgs cache)))
   \<and> length (fst (process_signatures fetch tok infos sgs cache)) \<le> PARSED_CACHE_MAX"
proof (induction sgs arbitrary: cache)
  case Nil
  then show ?case by simp
next
  case (Cons sg sgs)
  show ?case
  proof (cases "cached_or_fetched fetch sg cache")
    case None
    then show ?thesis using Cons by simp
  next
    case (Some r)
    obtain tx cache1 where r: "r = (tx, cache1)" by (cases r)
    have ok1: "distinct (dict_keys cache1)" "length cache1 \<le> PARSED_CACHE_MAX"
      using cached_or_fetched_ok[OF Cons.prems] Some r by simp_all
    from Cons.IH[OF ok1] show ?thesis
      using Some r ok1 by (auto split: sum.splits prod.splits option.splits)
  qed
qed

lemma dict_set_keys: "fst ` set (dict_set d k v) = insert k (fst ` set d)"
  by (induction d) force+

lemma del_keys_subset: "set (del_keys ks d) \<subseteq> set d"
proof (induction ks arbitrary: d)
  case Nil
  then show ?case by simp
next
  case (Cons k ks)
  have "set (del_keys ks (dict_del d k)) \<subseteq> set (dict_del d k)" by (rule Cons.IH)
  also have "\<dots> \<subseteq> set d" by (auto simp: dict_del_def)
  finally show ?case by simp
qed

lemma cache_insert_absent:
  assumes "map_of c k = None" and "k \<noteq> sg"
  shows "map_of (cache_insert sg v c) k = None"
proof -
  have "fst ` set (cache_insert sg v c) \<subseteq> fst ` set (dict_set c sg v)"
    using del_keys_subset [of _ "dict_set c sg v"]
    by (auto simp: cache_insert_def Let_def)
  then have "fst ` set (cache_insert sg v c) \<subseteq> insert sg (fst ` set c)"
    by (simp add: dict_set_keys)
  moreover have "k \<notin> fst ` set c" using assms(1) by (simp add: map_of_eq_None_iff)
  ultimately have "k \<notin> fst ` set (cache_insert sg v c)" using assms(2) by auto
  then show ?thesis by (simp add: map_of_eq_None_iff)
qed

lemma lookup_block_time_dicts:
  "NotADict \<notin> set es \<Longrightarrow> \<exists>bt. lookup_block_time sg es = Inr bt"
proof (induction es)
  case Nil
  then show ?case by simp
next
  case (Cons e es)
  then show ?case by (cases e) auto
qed

lemma process_signatures_returns:
  "NotADict \<notin> set infos \<Longrightarrow>
   \<exists>c evs. process_signatures fetch tok infos sgs cache = (c, Inr evs)"
proof (induction sgs arbitrary: cache)
  case Nil
  then show ?case by simp
next
  case (Cons sg sgs)
  show ?case
  proof (cases "cached_or_fetched fetch sg cache")
    case None
    then show ?thesis using Cons.IH [OF Cons.prems, of cache] by simp
  next
    case (Some r)
    obtain tx cache1 where r: "r = (tx, cache1)" by (cases r)
    obtain bt where bt: "lookup_block_time sg infos = Inr bt"
      using lookup_block_time_dicts [OF Cons.prems] by blast
    obtain c evs where rec: "process_signatures fetch tok infos sgs cache1 = (c, Inr evs)"
      using Cons.IH [OF Cons.prems, of cache1] by blast
    show ?thesis using Some r bt rec by (simp split: option.splits)
  qed
qed

lemma events_of_tx_hash: "list_all (\<lambda>e. ev_tx_hash e = sg) (events_of_tx tok sg bt tx)"
  by (simp add: events_of_tx_def list_all_iff)

lemma process_signatures_groups:
  "process_signatures fetch tok infos sgs cache = (cache', Inr evs) \<Longrightarrow>
   \<exists>groups. evs = concat groups
     \<and> list_all2 (\<lambda>sg g. list_all (\<lambda>e. ev_tx_hash e = sg) g) sgs groups"
proof (induction sgs arbitrary: cache cache' evs)
  case Nil
  then show ?case by simp
next
  case (Cons sg sgs)
  show ?case
  proof (cases "cached_or_fetched fetch sg cache")
    case None
    then have "process_signatures fetch tok infos sgs cache = (cache', Inr evs)"
      using Cons.prems by simp
    from Cons.IH [OF this] obtain groups where
      g: "evs = concat groups"
         "list_all2 (\<lambda>sg g. list_all (\<lambda>e. ev_tx_hash e = sg) g) sgs groups"
      by blast
    have "evs = concat ([] # groups)" using g(1) by simp
    moreover have "list_all2 (\<lambda>sg g. list_all (\<lambda>e. ev_tx_hash e = sg) g) (sg # sgs) ([] # groups)"
      using g(2) by simp
    ultimately show ?thesis by blast
  next
    case (Some r)
    obtain tx cache1 where r: "r = (tx, cache1)" by (cases r)
    obtain bt cache2 rest where
      rec: "process_signatures fetch tok infos sgs cache1 = (cache2, Inr rest)"
      and evs: "evs = events_of_tx tok sg bt tx @ rest"
      using Cons.prems Some r
      by (auto split: sum.splits prod.splits option.splits)
    from Cons.IH [OF rec] obtain groups where
      g: "rest = concat groups"
         "list_all2 (\<lambda>sg g. list_all (\<lambda>e. ev_tx_hash e = sg) g) sgs groups"
      by blast
    have "evs = concat (events_of_tx tok sg bt tx # groups)" using g(1) evs by simp
    moreover have "list_all2 (\<lambda>sg g. list_all (\<lambda>e. ev_tx_hash e = sg) g) (sg # sgs)
                     (events_of_tx tok sg bt tx # groups)"
      using g(2) events_of_tx_hash by simp
    ultimately show ?thesis by blast
  qed
qed

lemma filter_groups:
  "list_all2 (\<lambda>sg g. list_all (\<lambda>e. ev_tx_hash e = sg) g) sgs groups \<Longrightarrow>
   list_all2 (\<lambda>sg g. list_all (\<lambda>e. ev_tx_hash e = sg) g) sgs (map (filter p) groups)"
  by (induction sgs groups rule: list_all2_induct) (auto simp: list_all_iff)

lemma hashes_of_group:
  "list_all (\<lambda>e. ev_tx_hash e = sg) g \<Longrightarrow> map ev_tx_hash g = replicate (length g) sg"
  by (induction g) simp_all

lemma fetch_single: "fetch_solana_token_transfers P [tok] st = poll_mint P tok st"
  by (simp split: prod.splits sum.splits)

text \<open>
  The new signatures are the signatures of the answer that come before the cursor,
  entries without a signature left out, in the reverse of the order of the answer.
\<close>

lemma collect_new_answer:
  "collect_new last_sig es
     = List.map_filter entry_signature
         (takeWhile (\<lambda>e. last_sig = None \<or> entry_signature e \<noteq> last_sig) es)"
proof (induction es)
  case Nil
  then show ?case by (simp add: List.map_filter_simps)
next
  case (Cons e es)
  show ?case
  proof (cases e)
    case NotADict
    then show ?thesis using Cons by (cases last_sig) (simp_all add: List.map_filter_simps)
  next
    case (SigEntry s bt)
    show ?thesis
    proof (cases s)
      case None
      then show ?thesis
        using Cons SigEntry by (cases last_sig) (simp_all add: List.map_filter_simps)
    next
      case (Some sg)
      then show ?thesis
        using Cons SigEntry by (cases last_sig) (auto simp: List.map_filter_simps)
    qed
  qed
qed

lemma advance_cursor_new:
  "snd (advance_cursor last_sig es) = new_signatures last_sig es"
  by (simp add: advance_cursor_def Let_def)

text \<open>The poll of the scenario, evaluated.\<close>

lemma sol_tx_events:
  "events_of_tx sol_tok sg (Some 1700000000) sol_tx = [sol_event_of sg]"
proof -
  have ew: "endswith TOKEN_PROGRAM TOKEN_PROGRAM" by (simp add: endswith_def)
  have ex: "transfers_extracted ''MintBONK'' sol_tx
              = [\<lparr> x_source = Some ''src'', x_destination = Some ''dst'', x_amount = ''700000000'' \<rparr>]"
    using ew
    by (simp add: transfers_extracted_def extract_transfers_from_instructions_def
          extract_one_def sol_tx_def py_str_def TOKEN_PROGRAM_def)
  show ?thesis by (simp add: events_of_tx_def sol_tok_def ex sol_event_of_def)
qed

lemma sol_poll_example:
  "fetch_solana_token_transfers sol_prov [sol_tok] sol_st0
     = (\<lparr> cursors = (\<lambda>k. Some ''sig3'')(''BONK'' := Some ''sig5''),
          parsed_cache = [(''sig4'', sol_tx), (''sig5'', sol_tx)] \<rparr>,
        Inr [sol_event_of ''sig4'', sol_event_of ''sig5''])"
proof -
  have bt: "block_time sol_tx = Some 1700000000" by (simp add: sol_tx_def)
  have c1: "cached_or_fetched (\<lambda>s. Some sol_tx) ''sig4'' [] = Some (sol_tx, [(''sig4'', sol_tx)])"
    by (simp add: cached_or_fetched_def cache_insert_def PARSED_CACHE_MAX_def Let_def)
  have c2: "cached_or_fetched (\<lambda>s. Some sol_tx) ''sig5'' [(''sig4'', sol_tx)]
              = Some (sol_tx, [(''sig4'', sol_tx), (''sig5'', sol_tx)])"
    by (simp add: cached_or_fetched_def cache_insert_def PARSED_CACHE_MAX_def Let_def)
  have p: "process_signatures (\<lambda>s. Some sol_tx) sol_tok infos [''sig4'', ''sig5''] []
     = ([(''sig4'', sol_tx), (''sig5'', sol_tx)], Inr [sol_event_of ''sig4'', sol_event_of ''sig5''])"
    for infos
    by (simp add: c1 c2 bt sol_tx_events)
  have a: "advance_cursor (Some ''sig3'')
             [SigEntry (Some ''sig5'') (Some 50), SigEntry (Some ''sig4'') (Some 40),
              SigEntry (Some ''sig3'') (Some 30), SigEntry (Some ''sig2'') None]
           = (Some ''sig5'', [''sig4'', ''sig5''])"
    by (simp add: advance_cursor_def new_signatures_def)
  have k: "token_key sol_tok = ''BONK''" "mint_address sol_tok = ''MintBONK''"
    by (simp_all add: sol_tok_def)
  show ?thesis
    unfolding fetch_single poll_mint_def
    by (simp add: sol_prov_def sol_st0_def k a p Let_def del: process_signatures.simps)
qed

subsection \<open>C5: the exclusive boundary of a Solana poll\<close>

text \<open>
  C5: in a poll of the mint \<open>M\<close> with the last processed signature \<open>S3\<close> and the
  newest-first answer \<open>[S5, S4, S3, S2]\<close> (signatures are non-empty strings, and \<open>S4\<close>
  and \<open>S5\<close> differ from \<open>S3\<close>), the new signatures are \<open>S4\<close> then \<open>S5\<close>; the poll moves
  the cursor of the mint to \<open>S5\<close> and runs the transaction loop over exactly \<open>S4\<close> then
  \<open>S5\<close>; it returns, and every event it returns is one of \<open>S4\<close> or of \<open>S5\<close>, those of
  \<open>S4\<close> first; and when the two transactions are not cached and the provider returns
  them, the events are those of the transaction of \<open>S4\<close> followed by those of the
  transaction of \<open>S5\<close>. \<open>S3\<close> and \<open>S2\<close> are not looked at.
\<close>

theorem exclusive_boundary_scenario:
  assumes "infos = [SigEntry (Some S5) t5, SigEntry (Some S4) t4,
                    SigEntry (Some S3) t3, SigEntry (Some S2) t2]"
    and "signatures_of P (mint_address tok) = Some infos"
    and "cursors st (token_key tok) = Some S3"
    and "S3 \<noteq> []" "S4 \<noteq> []" "S5 \<noteq> []" "S4 \<noteq> S3" "S5 \<noteq> S3"
  shows "new_signatures (Some S3) infos = [S4, S5]
       \<and> poll_mint P tok st
           = (st\<lparr> cursors := (cursors st)(token_key tok := Some S5),
                  parsed_cache := fst (process_signatures (transaction_of P) tok infos [S4, S5]
                                         (parsed_cache st)) \<rparr>,
              snd (process_signatures (transaction_of P) tok infos [S4, S5] (parsed_cache st)))
       \<and> fetch_solana_token_transfers P [tok] st = poll_mint P tok st
       \<and> cursors (fst (fetch_solana_token_transfers P [tok] st)) (token_key tok) = Some S5
       \<and> (\<exists>n m evs. snd (fetch_solana_token_transfers P [tok] st) = Inr evs
             \<and> map ev_tx_hash evs = replicate n S4 @ replicate m S5)
       \<and> (S4 \<noteq> S5 \<and> map_of (parsed_cache st) S4 = None \<and> map_of (parsed_cache st) S5 = None
            \<and> transaction_of P S4 = Some x4 \<and> transaction_of P S5 = Some x5 \<longrightarrow>
          snd (fetch_solana_token_transfers P [tok] st)
            = Inr (events_of_tx tok S4 (case block_time x4 of None \<Rightarrow> t4 | Some b \<Rightarrow> Some b) x4
                   @ events_of_tx tok S5 (case block_time x5 of None \<Rightarrow> t5 | Some b \<Rightarrow> Some b) x5))"
proof -
  let ?PS = "process_signatures (transaction_of P) tok infos [S4, S5] (parsed_cache st)"
  have new: "new_signatures (Some S3) infos = [S4, S5]"
    using assms by (simp add: new_signatures_def)
  have adv: "advance_cursor (Some S3) infos = (Some S5, [S4, S5])"
    using new by (simp add: advance_cursor_def)
  have ne: "infos = SigEntry (Some S5) t5 # tl infos" using assms(1) by simp
  have pm: "poll_mint P tok st
           = (st\<lparr> cursors := (cursors st)(token_key tok := Some S5), parsed_cache := fst ?PS \<rparr>,
              snd ?PS)"
  proof -
    have "poll_mint P tok st
            = (case advance_cursor (cursors st (token_key tok)) infos of
                 (cur, new) \<Rightarrow>
                   let st1 = st\<lparr> cursors := (cursors st)(token_key tok := cur) \<rparr> in
                   (case process_signatures (transaction_of P) tok infos new (parsed_cache st1) of
                      (cache', r) \<Rightarrow> (st1\<lparr> parsed_cache := cache' \<rparr>, r)))"
      unfolding poll_mint_def assms(2) by (subst (1 2 3) ne) simp
    then show ?thesis
      unfolding assms(3) adv by (simp add: Let_def split: prod.splits)
  qed
  have dicts: "NotADict \<notin> set infos" using assms(1) by simp
  obtain c evs where ps: "?PS = (c, Inr evs)"
    using process_signatures_returns [OF dicts] by blast
  from process_signatures_groups [OF ps] obtain groups where
    g: "evs = concat groups"
       "list_all2 (\<lambda>sg g. list_all (\<lambda>e. ev_tx_hash e = sg) g) [S4, S5] groups"
    by blast
  from g(2) obtain g4 g5 where gs: "groups = [g4, g5]"
    "list_all (\<lambda>e. ev_tx_hash e = S4) g4" "list_all (\<lambda>e. ev_tx_hash e = S5) g5"
    by (auto simp: list_all2_Cons1)
  have hashes: "map ev_tx_hash evs = replicate (length g4) S4 @ replicate (length g5) S5"
    using g(1) gs(1) hashes_of_group [OF gs(2)] hashes_of_group [OF gs(3)] by simp
  have ret: "\<exists>n m evs. snd (fetch_solana_token_transfers P [tok] st) = Inr evs
             \<and> map ev_tx_hash evs = replicate n S4 @ replicate m S5"
    unfolding fetch_single pm using ps hashes by auto
  have cur: "cursors (fst (fetch_solana_token_transfers P [tok] st)) (token_key tok) = Some S5"
    unfolding fetch_single pm by simp
  have full: "snd (fetch_solana_token_transfers P [tok] st)
            = Inr (events_of_tx tok S4 (case block_time x4 of None \<Rightarrow> t4 | Some b \<Rightarrow> Some b) x4
                   @ events_of_tx tok S5 (case block_time x5 of None \<Rightarrow> t5 | Some b \<Rightarrow> Some b) x5)"
    if h: "S4 \<noteq> S5" "map_of (parsed_cache st) S4 = None" "map_of (parsed_cache st) S5 = None"
      "transaction_of P S4 = Some x4" "transaction_of P S5 = Some x5"
  proof -
    let ?c1 = "cache_insert S4 x4 (parsed_cache st)"
    have f4: "cached_or_fetched (transaction_of P) S4 (parsed_cache st) = Some (x4, ?c1)"
      using h by (simp add: cached_or_fetched_def)
    have "map_of ?c1 S5 = None"
      using cache_insert_absent [OF h(3)] h(1) by simp
    then have f5: "cached_or_fetched (transaction_of P) S5 ?c1 = Some (x5, cache_insert S5 x5 ?c1)"
      using h by (simp add: cached_or_fetched_def)
    have l4: "lookup_block_time S4 infos = Inr t4"
      using assms(1) h(1) by simp
    have l5: "lookup_block_time S5 infos = Inr t5"
      using assms(1) by simp
    have "snd ?PS
            = Inr (events_of_tx tok S4 (case block_time x4 of None \<Rightarrow> t4 | Some b \<Rightarrow> Some b) x4
                   @ events_of_tx tok S5 (case block_time x5 of None \<Rightarrow> t5 | Some b \<Rightarrow> Some b) x5)"
      by (simp add: f4 f5 l4 l5 split: option.splits)
    then show ?thesis unfolding fetch_single pm by simp
  qed
  from new pm fetch_single cur ret full show ?thesis by blast
qed

theorem exclusive_boundary_scenario_witness:
  "cursors sol_st0 (token_key sol_tok) = Some ''sig3''
   \<and> new_signatures (Some ''sig3'')
        [SigEntry (Some ''sig5'') (Some 50), SigEntry (Some ''sig4'') (Some 40),
         SigEntry (Some ''sig3'') (Some 30), SigEntry (Some ''sig2'') None]
       = [''sig4'', ''sig5'']
   \<and> cursors (fst (fetch_solana_token_transfers sol_prov [sol_tok] sol_st0)) (token_key sol_tok)
       = Some ''sig5''
   \<and> snd (fetch_solana_token_transfers sol_prov [sol_tok] sol_st0)
       = Inr [sol_event_of ''sig4'', sol_event_of ''sig5'']"
proof -
  have i: "[SigEntry (Some ''sig5'') (Some 50), SigEntry (Some ''sig4'') (Some 40),
            SigEntry (Some ''sig3'') (Some 30), SigEntry (Some ''sig2'') None]
         = [SigEntry (Some ''sig5'') (Some 50), SigEntry (Some ''sig4'') (Some 40),
            SigEntry (Some ''sig3'') (Some 30), SigEntry (Some ''sig2'') None]"
    by (rule refl)
  have s: "signatures_of sol_prov (mint_address sol_tok)
             = Some [SigEntry (Some ''sig5'') (Some 50), SigEntry (Some ''sig4'') (Some 40),
                     SigEntry (Some ''sig3'') (Some 30), SigEntry (Some ''sig2'') None]"
    by (simp add: sol_prov_def)
  have c: "cursors sol_st0 (token_key sol_tok) = Some ''sig3''" by (simp add: sol_st0_def)
  have h: "''sig3'' \<noteq> []" "''sig4'' \<noteq> []" "''sig5'' \<noteq> []"
          "''sig4'' \<noteq> ''sig3''" "''sig5'' \<noteq> ''sig3''"
    by simp_all
  have more: "''sig4'' \<noteq> ''sig5'' \<and> map_of (parsed_cache sol_st0) ''sig4'' = None
      \<and> map_of (parsed_cache sol_st0) ''sig5'' = None
      \<and> transaction_of sol_prov ''sig4'' = Some sol_tx
      \<and> transaction_of sol_prov ''sig5'' = Some sol_tx"
    by (simp add: sol_st0_def sol_prov_def)
  have bt: "block_time sol_tx = Some 1700000000" by (simp add: sol_tx_def)
  from exclusive_boundary_scenario [OF i s c h, of sol_tx sol_tx] more
  have "new_signatures (Some ''sig3'')
        [SigEntry (Some ''sig5'') (Some 50), SigEntry (Some ''sig4'') (Some 40),
         SigEntry (Some ''sig3'') (Some 30), SigEntry (Some ''sig2'') None]
       = [''sig4'', ''sig5'']"
    and "cursors (fst (fetch_solana_token_transfers sol_prov [sol_tok] sol_st0)) (token_key sol_tok)
       = Some ''sig5''"
    and "snd (fetch_solana_token_transfers sol_prov [sol_tok] sol_st0)
       = Inr (events_of_tx sol_tok ''sig4''
                (case block_time sol_tx of None \<Rightarrow> Some 40 | Some b \<Rightarrow> Some b) sol_tx
              @ events_of_tx sol_tok ''sig5''
                (case block_time sol_tx of None \<Rightarrow> Some 50 | Some b \<Rightarrow> Some b) sol_tx)"
    by blast+
  then show ?thesis using c unfolding bt by (simp add: sol_tx_events)
qed

subsection \<open>C9: the cap of the parsed-transaction cache\<close>

text \<open>
  C9: an insertion into the cache (which the source makes only for a signature that is
  not yet a key) leaves at most \<open>PARSED_CACHE_MAX = 500\<close> entries; what remains is the
  cache with the new entry at its end, less as many entries from its front, the oldest
  inserted, as it was over the cap.
\<close>

theorem parsed_cache_bounded:
  assumes "distinct (dict_keys cache)" and "sg \<notin> set (dict_keys cache)"
  shows "length (cache_insert sg tx cache) \<le> PARSED_CACHE_MAX
       \<and> cache_insert sg tx cache
           = drop (length (cache @ [(sg, tx)]) - PARSED_CACHE_MAX) (cache @ [(sg, tx)])
       \<and> distinct (dict_keys (cache_insert sg tx cache))"
proof -
  define c where "c = cache @ [(sg, tx)]"
  have e: "cache_insert sg tx cache = drop (length c - PARSED_CACHE_MAX) c"
    using cache_insert_drop assms by (simp add: dict_keys_def c_def)
  have "distinct (map fst c)" using assms by (simp add: dict_keys_def c_def)
  then have "distinct (map fst (drop (length c - PARSED_CACHE_MAX) c))"
    by (metis distinct_drop drop_map)
  then show ?thesis unfolding e c_def[symmetric] by (simp add: dict_keys_def)
qed

theorem parsed_cache_bounded_witness:
  "distinct (dict_keys full_cache) \<and> ''new'' \<notin> set (dict_keys full_cache)
   \<and> length full_cache = 500
   \<and> length (cache_insert ''new'' 500 full_cache) \<le> PARSED_CACHE_MAX
   \<and> cache_insert ''new'' 500 full_cache = tl full_cache @ [(''new'', 500)]"
proof -
  have d: "distinct (dict_keys full_cache)"
    by (simp add: full_cache_def dict_keys_def distinct_map o_def inj_on_def)
  have n: "''new'' \<notin> set (dict_keys full_cache)"
    by (auto simp: full_cache_def dict_keys_def)
  have l: "length full_cache = 500" by (simp add: full_cache_def)
  have ne: "full_cache \<noteq> []" using l by auto
  have dr: "drop (length (full_cache @ [(''new'', 500)]) - PARSED_CACHE_MAX)
              (full_cache @ [(''new'', 500)]) = tl full_cache @ [(''new'', 500)]"
    using ne by (simp add: l PARSED_CACHE_MAX_def drop_Suc)
  from parsed_cache_bounded [OF d n, of 500]
  have a: "length (cache_insert ''new'' 500 full_cache) \<le> PARSED_CACHE_MAX"
    and b: "cache_insert ''new'' 500 full_cache
              = drop (length (full_cache @ [(''new'', 500)]) - PARSED_CACHE_MAX)
                  (full_cache @ [(''new'', 500)])"
    by blast+
  from d n l a b [unfolded dr] show ?thesis by blast
qed

section \<open>Properties of the block pollers\<close>

lemma cursor_le_refl: "cursor_le c c"
  by (cases c) simp_all

lemma bitcoin_cycle_cursor: "cursor_le last_seen (fst (poll_bitcoin_cycle C P last_seen))"
  by (cases last_seen)
     (auto simp: poll_bitcoin_cycle_def split: option.splits prod.splits)

lemma tron_cycle_cursor: "cursor_le last_seen (fst (poll_tron_cycle C P last_seen))"
  by (cases last_seen) (auto simp: poll_tron_cycle_def split: option.splits)

lemma polygon_cycle_cursor: "cursor_le last_block (fst (poll_polygon_cycle C P last_block))"
  by (cases last_block) (auto simp: poll_polygon_cycle_def split: option.splits)

lemma bitcoin_run_head: "\<exists>cs. bitcoin_run cycles c = c # cs"
  by (cases cycles) auto

lemma tron_run_head: "\<exists>cs. tron_run cycles c = c # cs"
  by (cases cycles) auto

lemma polygon_run_head: "\<exists>cs. polygon_run cycles c = c # cs"
  by (cases cycles) auto

lemma bitcoin_run_nondecreasing: "nondecreasing (bitcoin_run cycles c)"
proof (induction cycles arbitrary: c)
  case Nil
  then show ?case by simp
next
  case (Cons x cycles)
  obtain C P where x: "x = (C, P)" by (cases x)
  define c' where "c' = fst (poll_bitcoin_cycle C P c)"
  obtain cs where r: "bitcoin_run cycles c' = c' # cs" using bitcoin_run_head by blast
  have "nondecreasing (c' # cs)" using Cons.IH[of c'] r by simp
  moreover have "cursor_le c c'" unfolding c'_def by (rule bitcoin_cycle_cursor)
  ultimately show ?case using x r by (simp add: c'_def)
qed

lemma tron_run_nondecreasing: "nondecreasing (tron_run cycles c)"
proof (induction cycles arbitrary: c)
  case Nil
  then show ?case by simp
next
  case (Cons x cycles)
  obtain C P where x: "x = (C, P)" by (cases x)
  define c' where "c' = fst (poll_tron_cycle C P c)"
  obtain cs where r: "tron_run cycles c' = c' # cs" using tron_run_head by blast
  have "nondecreasing (c' # cs)" using Cons.IH[of c'] r by simp
  moreover have "cursor_le c c'" unfolding c'_def by (rule tron_cycle_cursor)
  ultimately show ?case using x r by (simp add: c'_def)
qed

lemma polygon_run_nondecreasing: "nondecreasing (polygon_run cycles c)"
proof (induction cycles arbitrary: c)
  case Nil
  then show ?case by simp
next
  case (Cons x cycles)
  obtain C P where x: "x = (C, P)" by (cases x)
  define c' where "c' = fst (poll_polygon_cycle C P c)"
  obtain cs where r: "polygon_run cycles c' = c' # cs" using polygon_run_head by blast
  have "nondecreasing (c' # cs)" using Cons.IH[of c'] r by simp
  moreover have "cursor_le c c'" unfolding c'_def by (rule polygon_cycle_cursor)
  ultimately show ?case using x r by (simp add: c'_def)
qed

subsection \<open>C6: the cursor never goes back\<close>

text \<open>
  C6: for the Bitcoin, Tron and Polygon pollers, from the start of the poller and
  through every sequence of poll cycles (whatever the provider answers), the sequence
  of values of the cursor is non-decreasing; and a poller without a cursor takes the
  tip the provider reports in that cycle as its cursor, and nothing else.
\<close>

theorem cursor_never_rewinds:
  "nondecreasing (bitcoin_run bcycles (bitcoin_startup btip))
   \<and> nondecreasing (tron_run tcycles (tron_startup ttip))
   \<and> nondecreasing (polygon_run pcycles (polygon_startup ptip))
   \<and> bitcoin_startup btip = btip \<and> tron_startup ttip = ttip
   \<and> fst (poll_bitcoin_cycle BC BP None) = blockcount BP
   \<and> fst (poll_tron_cycle TC TP None) = now_block_number TP
   \<and> fst (poll_polygon_cycle PC PP None) = pg_block_number PP"
proof -
  have s: "bitcoin_startup btip = btip" "tron_startup ttip = ttip"
    by (simp_all add: bitcoin_startup_def tron_startup_def split: option.splits)
  have seed: "fst (poll_bitcoin_cycle BC BP None) = blockcount BP"
    "fst (poll_tron_cycle TC TP None) = now_block_number TP"
    "fst (poll_polygon_cycle PC PP None) = pg_block_number PP"
    by (simp_all add: poll_bitcoin_cycle_def poll_tron_cycle_def poll_polygon_cycle_def
          split: option.splits)
  show ?thesis
    using s seed bitcoin_run_nondecreasing tron_run_nondecreasing polygon_run_nondecreasing
    by blast
qed

subsection \<open>C4: the USD threshold\<close>

lemma native_counts_iff:
  "native_counts C = (\<lambda>v. 0 < v \<and> tron_threshold_usd C \<le> native_usd_value C v)"
  by (rule ext) (auto simp: native_counts_def)

lemma found_is_events_and_native:
  "fst (process_block_txinfo C tx_infos)
     = length (snd (process_block_txinfo C tx_infos))
       + length (filter (native_counts C)
           (concat (map call_values (concat (map internal_transactions tx_infos)))))"
  by (induction tx_infos) (simp_all add: process_block_txinfo_def native_found_def)

text \<open>
  C4, as the spec states it, has an event emitted only for a value strictly greater
  than the threshold. The source passes an output over when its value is below the
  threshold, so a value equal to the threshold is emitted: at 50000 USD per BTC and a
  threshold of 500000 USD an output of 10 BTC has an event whose USD value is exactly
  the threshold, not strictly greater; so has a USDT transfer of exactly 500000 USD on
  the Tron log path. And the Bitcoin path compares the value in BTC with the quotient of
  threshold and price, not the USD value with the threshold: in doubles, at the price
  \<open>19801.98\<close> and a threshold of 2000000 USD the quotient is \<open>101.00000101\<close>, and an
  output of that value has an event whose USD value, \<open>1999999.9999999998\<close>, is below the
  threshold.
\<close>

theorem threshold_boundary_counterexample:
  "\<not> ev_usd_value (btc_event btc_cfg btc_block0 btc_tx0 (btc_out_of 10)) > btc_threshold_usd btc_cfg
   \<and> process_block btc_cfg btc_block0
       = Inr [btc_event btc_cfg btc_block0 btc_tx0 (btc_out_of 10),
              btc_event btc_cfg btc_block0 btc_tx0 (btc_out_of 12)]
   \<and> \<not> ev_usd_value (trc20_event tron_cfg tron_info0 tron_log0) > tron_threshold_usd tron_cfg
   \<and> snd (process_block_txinfo tron_cfg [tron_info0]) = [trc20_event tron_cfg tron_info0 tron_log0]
   \<and> threshold_btc btc_cfg_near = 444202702063531 / 2 ^ 42
   \<and> process_block btc_cfg_near btc_block_near
       = Inr [btc_event btc_cfg_near btc_block_near btc_tx_near
                (btc_out_of (444202702063531 / 2 ^ 42))]
   \<and> ev_usd_value (btc_event btc_cfg_near btc_block_near btc_tx_near
                (btc_out_of (444202702063531 / 2 ^ 42))) = 2000000 - 1 / 2 ^ 32
   \<and> ev_usd_value (btc_event btc_cfg_near btc_block_near btc_tx_near
                (btc_out_of (444202702063531 / 2 ^ 42))) < btc_threshold_usd btc_cfg_near"
proof -
  have q: "nearest_multiple (1 / 2 ^ 46) (2000000 / (5443126815746949 / 2 ^ 38))
             = 444202702063531 / 2 ^ 42"
    by (simp add: nearest_multiple_def round_half_even_def Let_def)
  have m: "nearest_multiple (1 / 2 ^ 32)
             ((444202702063531 / 2 ^ 42) * (5443126815746949 / 2 ^ 38)) = 2000000 - 1 / 2 ^ 32"
    by (simp add: nearest_multiple_def round_half_even_def Let_def)
  have nt: "threshold_btc btc_cfg_near = 444202702063531 / 2 ^ 42"
    unfolding threshold_btc_def btc_cfg_near_def doubles_near_def using q by simp
  have nu: "ev_usd_value (btc_event btc_cfg_near btc_block_near btc_tx_near
                (btc_out_of (444202702063531 / 2 ^ 42))) = 2000000 - 1 / 2 ^ 32"
    unfolding btc_event_def btc_cfg_near_def doubles_near_def btc_out_of_def using m by simp
  have np: "process_block btc_cfg_near btc_block_near
       = Inr [btc_event btc_cfg_near btc_block_near btc_tx_near
                (btc_out_of (444202702063531 / 2 ^ 42))]"
  proof -
    have z: "btc_usd btc_cfg_near \<noteq> 0" by (simp add: btc_cfg_near_def)
    have e: "btc_output_emits btc_cfg_near (btc_out_of (444202702063531 / 2 ^ 42))"
      unfolding btc_output_emits_def nt by (simp add: btc_out_of_def)
    show ?thesis
      using z e by (simp add: process_block_def btc_block_near_def btc_tx_events_def btc_tx_near_def)
  qed
  have nl: "ev_usd_value (btc_event btc_cfg_near btc_block_near btc_tx_near
                (btc_out_of (444202702063531 / 2 ^ 42))) < btc_threshold_usd btc_cfg_near"
    unfolding nu by (simp add: btc_cfg_near_def)
  have tok: "token_of_contract R TRON_USDT_CONTRACT = (''USDT'', 6)" for R
    by (simp add: token_of_contract_def Let_def)
  have rt: "tron_rt tron_cfg = plain_runtime" by (simp add: tron_cfg_def)
  have v: "trc20_value tron_cfg tron_log0 = Some (500000, 500000)"
    unfolding trc20_value_def rt
    by (simp add: tron_log0_def tron_cfg_def tok usdt_price_def Let_def plain_runtime_def)
  have e: "trc20_log_emits tron_cfg tron_log0"
    unfolding trc20_log_emits_def v
    by (simp add: log_is_transfer_def tron_log0_def tron_cfg_def)
  have u: "ev_usd_value (trc20_event tron_cfg tron_info0 tron_log0) = 500000"
    by (simp add: trc20_event_def v)
  have b: "process_block btc_cfg btc_block0
       = Inr [btc_event btc_cfg btc_block0 btc_tx0 (btc_out_of 10),
              btc_event btc_cfg btc_block0 btc_tx0 (btc_out_of 12)]"
    by (simp add: process_block_def btc_cfg_def btc_block0_def btc_tx_events_def btc_tx0_def
          btc_output_emits_def threshold_btc_def btc_out_of_def plain_runtime_def)
  have t: "snd (process_block_txinfo tron_cfg [tron_info0])
             = [trc20_event tron_cfg tron_info0 tron_log0]"
    using e by (simp add: process_block_txinfo_def trc20_events_def tron_info0_def)
  have bu: "ev_usd_value (btc_event btc_cfg btc_block0 btc_tx0 (btc_out_of 10)) = 500000"
    by (simp add: btc_event_def btc_cfg_def btc_out_of_def plain_runtime_def)
  have first: "\<not> ev_usd_value (btc_event btc_cfg btc_block0 btc_tx0 (btc_out_of 10))
                   > btc_threshold_usd btc_cfg"
    "\<not> ev_usd_value (trc20_event tron_cfg tron_info0 tron_log0) > tron_threshold_usd tron_cfg"
    unfolding bu u by (simp_all add: btc_cfg_def tron_cfg_def)
  from first b t nt np nu nl show ?thesis by blast
qed

text \<open>
  C4 as amended, in the comparisons the source makes on its floats. With a BTC price
  that is not zero, the events of a Bitcoin block are those of the outputs whose value
  in BTC is greater than or equal to \<open>threshold_btc\<close>, the quotient of the threshold and
  the price as the floats give it, in order (the USD value of the event is not what is
  compared). The events of the Tron log path are those of the Transfer logs whose data
  parses and whose computed USD value is greater than or equal to the threshold, in
  order. And the count that \<open>_process_block_txinfo\<close> returns is the number of these
  events plus the number of native TRX call values that are positive and whose computed
  USD value is greater than or equal to the threshold. The comparison is not strict on
  any of the three paths.
\<close>

theorem threshold_is_inclusive:
  assumes "btc_usd BC \<noteq> 0"
  shows "process_block BC block
           = Inr (concat (map (\<lambda>tx. map (btc_event BC block tx)
                    (filter (\<lambda>out. threshold_btc BC \<le> out_value out) (vout tx)))
                    (block_txs block)))
       \<and> snd (process_block_txinfo TC tx_infos)
           = concat (map (\<lambda>info. map (trc20_event TC info)
                    (filter (\<lambda>l. log_is_transfer l \<and> trc20_value TC l \<noteq> None
                                 \<and> tron_threshold_usd TC \<le> ev_usd_value (trc20_event TC info l))
                       (info_log info))) tx_infos)
       \<and> fst (process_block_txinfo TC tx_infos)
           = length (snd (process_block_txinfo TC tx_infos))
             + length (filter (\<lambda>v. 0 < v \<and> tron_threshold_usd TC \<le> native_usd_value TC v)
                 (concat (map call_values (concat (map internal_transactions tx_infos)))))"
proof -
  have b: "btc_output_emits BC = (\<lambda>out. threshold_btc BC \<le> out_value out)"
    by (rule ext) (auto simp: btc_output_emits_def)
  have t: "trc20_log_emits TC l
             \<longleftrightarrow> log_is_transfer l \<and> trc20_value TC l \<noteq> None
                 \<and> tron_threshold_usd TC \<le> ev_usd_value (trc20_event TC info l)" for l info
    by (auto simp: trc20_log_emits_def trc20_event_def split: option.splits)
  have p1: "process_block BC block
           = Inr (concat (map (\<lambda>tx. map (btc_event BC block tx)
                    (filter (\<lambda>out. threshold_btc BC \<le> out_value out) (vout tx)))
                    (block_txs block)))"
  proof -
    have "btc_tx_events BC block
            = (\<lambda>tx. map (btc_event BC block tx)
                    (filter (\<lambda>out. threshold_btc BC \<le> out_value out) (vout tx)))"
      by (rule ext) (simp add: btc_tx_events_def b)
    then show ?thesis using assms by (simp add: process_block_def)
  qed
  have p2: "snd (process_block_txinfo TC tx_infos)
           = concat (map (\<lambda>info. map (trc20_event TC info)
                    (filter (\<lambda>l. log_is_transfer l \<and> trc20_value TC l \<noteq> None
                                 \<and> tron_threshold_usd TC \<le> ev_usd_value (trc20_event TC info l))
                       (info_log info))) tx_infos)"
  proof -
    have "trc20_events TC
            = (\<lambda>info. map (trc20_event TC info)
                    (filter (\<lambda>l. log_is_transfer l \<and> trc20_value TC l \<noteq> None
                                 \<and> tron_threshold_usd TC \<le> ev_usd_value (trc20_event TC info l))
                       (info_log info)))"
      by (rule ext) (simp only: trc20_events_def t [symmetric])
    then show ?thesis by (simp add: process_block_txinfo_def)
  qed
  have p3: "fst (process_block_txinfo TC tx_infos)
           = length (snd (process_block_txinfo TC tx_infos))
             + length (filter (\<lambda>v. 0 < v \<and> tron_threshold_usd TC \<le> native_usd_value TC v)
                 (concat (map call_values (concat (map internal_transactions tx_infos)))))"
    using found_is_events_and_native [of TC tx_infos] unfolding native_counts_iff .
  from p1 p2 p3 show ?thesis by blast
qed

theorem threshold_is_inclusive_witness:
  "btc_usd btc_cfg \<noteq> 0
   \<and> threshold_btc btc_cfg = 10
   \<and> process_block btc_cfg btc_block0
       = Inr [btc_event btc_cfg btc_block0 btc_tx0 (btc_out_of 10),
              btc_event btc_cfg btc_block0 btc_tx0 (btc_out_of 12)]"
proof -
  have h: "btc_usd btc_cfg \<noteq> 0" by (simp add: btc_cfg_def)
  have th: "threshold_btc btc_cfg = 10"
    by (simp add: threshold_btc_def btc_cfg_def plain_runtime_def)
  have f: "filter (\<lambda>out. threshold_btc btc_cfg \<le> out_value out) (vout btc_tx0)
             = [btc_out_of 10, btc_out_of 12]"
    unfolding th by (simp add: btc_tx0_def btc_out_of_def)
  have bt: "block_txs btc_block0 = [btc_tx0]" by (simp add: btc_block0_def)
  from threshold_is_inclusive [OF h, of btc_block0 tron_cfg "[]"]
  have "process_block btc_cfg btc_block0
           = Inr (concat (map (\<lambda>tx. map (btc_event btc_cfg btc_block0 tx)
                    (filter (\<lambda>out. threshold_btc btc_cfg \<le> out_value out) (vout tx)))
                    (block_txs btc_block0)))"
    by blast
  then have "process_block btc_cfg btc_block0
       = Inr [btc_event btc_cfg btc_block0 btc_tx0 (btc_out_of 10),
              btc_event btc_cfg btc_block0 btc_tx0 (btc_out_of 12)]"
    unfolding bt by (simp add: f)
  with h th show ?thesis by blast
qed

subsection \<open>C8: the order of emission\<close>

lemma tagged_sorted: "sorted (map fst (map (Pair h) evs))"
  by (simp add: o_def map_replicate_const sorted_replicate)

lemma btc_scan_tags:
  "sorted hs \<Longrightarrow>
   sorted (map fst (fst (btc_scan C P hs))) \<and> (\<forall>p \<in> set (fst (btc_scan C P hs)). fst p \<in> set hs)"
proof (induction hs)
  case Nil
  then show ?case by simp
next
  case (Cons h hs)
  then have ih: "sorted (map fst (fst (btc_scan C P hs)))"
    "\<forall>p \<in> set (fst (btc_scan C P hs)). fst p \<in> set hs"
    and le: "\<forall>x \<in> set hs. h \<le> x"
    by simp_all
  have step: "sorted (map fst (map (Pair h) evs @ fst (btc_scan C P hs)))
       \<and> (\<forall>p \<in> set (map (Pair h) evs @ fst (btc_scan C P hs)). fst p \<in> set (h # hs))" for evs
    using ih le tagged_sorted [of h evs] by (auto simp: sorted_append o_def)
  show ?case
  proof (cases "btc_shutdown P h")
    case True
    then show ?thesis by simp
  next
    case False
    show ?thesis
    proof (cases "blockhash P h")
      case None
      then show ?thesis using False ih by auto
    next
      case (Some bh)
      show ?thesis
      proof (cases "bh = []")
        case True
        then show ?thesis using False Some ih by auto
      next
        case nonempty: False
        show ?thesis
        proof (cases "block_of P bh")
          case None
          then show ?thesis using False Some nonempty ih by auto
        next
          case blk: (Some block)
          show ?thesis
          proof (cases "process_block C block")
            case (Inl e)
            then show ?thesis using False Some nonempty blk by simp
          next
            case (Inr evs)
            obtain rest raised where r: "btc_scan C P hs = (rest, raised)"
              by (cases "btc_scan C P hs")
            have "fst (btc_scan C P (h # hs)) = map (Pair h) evs @ fst (btc_scan C P hs)"
              using False Some nonempty blk Inr r by simp
            then show ?thesis using step [of evs] by simp
          qed
        qed
      qed
    qed
  qed
qed

lemma tron_scan_tags:
  "sorted blks \<Longrightarrow>
   sorted (map fst (tron_scan C P blks)) \<and> (\<forall>p \<in> set (tron_scan C P blks). fst p \<in> set blks)"
proof (induction blks)
  case Nil
  then show ?case by simp
next
  case (Cons b blks)
  then have ih: "sorted (map fst (tron_scan C P blks))"
    "\<forall>p \<in> set (tron_scan C P blks). fst p \<in> set blks"
    and le: "\<forall>x \<in> set blks. b \<le> x"
    by simp_all
  have step: "sorted (map fst (map (Pair b) evs @ tron_scan C P blks))
       \<and> (\<forall>p \<in> set (map (Pair b) evs @ tron_scan C P blks). fst p \<in> set (b # blks))" for evs
    using ih le tagged_sorted [of b evs] by (auto simp: sorted_append o_def)
  show ?case
  proof (cases "tron_shutdown P b")
    case True
    then show ?thesis by simp
  next
    case False
    show ?thesis
    proof (cases "block_txinfo P b")
      case None
      then show ?thesis using False ih by auto
    next
      case (Some tx_infos)
      have "tron_scan C P (b # blks)
              = map (Pair b) (snd (process_block_txinfo C tx_infos)) @ tron_scan C P blks"
        using False Some by simp
      then show ?thesis using step [of "snd (process_block_txinfo C tx_infos)"] by simp
    qed
  qed
qed

lemma bitcoin_cycle_sorted: "sorted (map fst (snd (poll_bitcoin_cycle C P last_seen)))"
proof -
  have "sorted (map fst evs)" if "btc_scan C P [l + 1 .. c] = (evs, r)" for l c evs r
    using btc_scan_tags [of "[l + 1 .. c]" C P] that by simp
  then show ?thesis
    by (auto simp: poll_bitcoin_cycle_def split: option.splits prod.splits)
qed

lemma tron_cycle_sorted: "sorted (map fst (snd (poll_tron_cycle C P last_seen)))"
proof -
  have "sorted (map fst (tron_scan C P [l + 1 .. c]))" for l c
    using tron_scan_tags [of "[l + 1 .. c]" C P] by simp
  then show ?thesis
    by (auto simp: poll_tron_cycle_def split: option.splits)
qed

lemma polygon_emitted_order:
  "map fst (polygon_emitted C transfers)
     = map block_num (filter (\<lambda>tx. polygon_event C tx \<noteq> None) transfers)"
  by (induction transfers) (auto split: option.splits)

text \<open>
  The events of one mint come in groups, one per new signature, in the order of the new
  signatures; the events of a poll are those of its mints, one mint after the other.
\<close>

lemma poll_mint_groups:
  assumes "poll_mint P tok st = (st1, Inr evs)"
  shows "\<exists>groups. evs = concat groups
           \<and> list_all2 (\<lambda>sg g. list_all (\<lambda>e. ev_tx_hash e = sg) g)
               (case signatures_of P (mint_address tok) of
                  None \<Rightarrow> []
                | Some es \<Rightarrow> new_signatures (cursors st (token_key tok)) es) groups"
    and "\<forall>k. k \<noteq> token_key tok \<longrightarrow> cursors st1 k = cursors st k"
proof -
  have "(\<exists>groups. evs = concat groups
           \<and> list_all2 (\<lambda>sg g. list_all (\<lambda>e. ev_tx_hash e = sg) g)
               (case signatures_of P (mint_address tok) of
                  None \<Rightarrow> []
                | Some es \<Rightarrow> new_signatures (cursors st (token_key tok)) es) groups)
      \<and> (\<forall>k. k \<noteq> token_key tok \<longrightarrow> cursors st1 k = cursors st k)"
  proof (cases "signatures_of P (mint_address tok)")
    case None
    then have "evs = []" "st1 = st" using assms by (simp_all add: poll_mint_def)
    then show ?thesis using None by simp
  next
    case (Some es)
    show ?thesis
    proof (cases es)
      case Nil
      then have "evs = []" "st1 = st" using assms Some by (simp_all add: poll_mint_def)
      then show ?thesis using Some Nil by (simp add: new_signatures_def)
    next
      case (Cons e es')
      obtain cur new where adv: "advance_cursor (cursors st (token_key tok)) es = (cur, new)"
        by (cases "advance_cursor (cursors st (token_key tok)) es")
      have new: "new = new_signatures (cursors st (token_key tok)) es"
        using advance_cursor_new [of "cursors st (token_key tok)" es] adv by simp
      obtain cache' where ps:
        "process_signatures (transaction_of P) tok es new (parsed_cache st) = (cache', Inr evs)"
        and st1: "st1 = st\<lparr> cursors := (cursors st)(token_key tok := cur), parsed_cache := cache' \<rparr>"
        using assms Some Cons adv
        by (auto simp: poll_mint_def Let_def split: prod.splits)
      from process_signatures_groups [OF ps] show ?thesis
        using Some new st1 by simp
    qed
  qed
  then show "\<exists>groups. evs = concat groups
           \<and> list_all2 (\<lambda>sg g. list_all (\<lambda>e. ev_tx_hash e = sg) g)
               (case signatures_of P (mint_address tok) of
                  None \<Rightarrow> []
                | Some es \<Rightarrow> new_signatures (cursors st (token_key tok)) es) groups"
    and "\<forall>k. k \<noteq> token_key tok \<longrightarrow> cursors st1 k = cursors st k"
    by blast+
qed

lemma fetch_groups:
  assumes "distinct (map token_key toks)"
    and "fetch_solana_token_transfers P toks st = (st', Inr evs)"
  shows "\<exists>groups. evs = concat groups
           \<and> list_all2 (\<lambda>sg g. list_all (\<lambda>e. ev_tx_hash e = sg) g)
               (concat (map (\<lambda>tok. case signatures_of P (mint_address tok) of
                                      None \<Rightarrow> []
                                    | Some es \<Rightarrow> new_signatures (cursors st (token_key tok)) es)
                          toks)) groups"
  using assms
proof (induction toks arbitrary: st st' evs)
  case Nil
  then show ?case by simp
next
  case (Cons tok toks)
  obtain st1 r1 where pm: "poll_mint P tok st = (st1, r1)" by (cases "poll_mint P tok st")
  obtain evs1 where r1: "r1 = Inr evs1"
    using Cons.prems(2) pm by (cases r1) simp_all
  obtain evs2 where rest: "fetch_solana_token_transfers P toks st1 = (st', Inr evs2)"
    and evs: "evs = evs1 @ evs2"
    using Cons.prems(2) pm r1 by (auto split: prod.splits sum.splits)
  note g1 = poll_mint_groups [OF pm [unfolded r1]]
  from g1(1) obtain groups1 where
    a: "evs1 = concat groups1"
       "list_all2 (\<lambda>sg g. list_all (\<lambda>e. ev_tx_hash e = sg) g)
               (case signatures_of P (mint_address tok) of
                  None \<Rightarrow> []
                | Some es \<Rightarrow> new_signatures (cursors st (token_key tok)) es) groups1"
    by blast
  have d: "distinct (map token_key toks)" using Cons.prems(1) by simp
  from Cons.IH [OF d rest] obtain groups2 where
    b: "evs2 = concat groups2"
       "list_all2 (\<lambda>sg g. list_all (\<lambda>e. ev_tx_hash e = sg) g)
               (concat (map (\<lambda>tok. case signatures_of P (mint_address tok) of
                                      None \<Rightarrow> []
                                    | Some es \<Rightarrow> new_signatures (cursors st1 (token_key tok)) es)
                          toks)) groups2"
    by blast
  have same: "map (\<lambda>tok. case signatures_of P (mint_address tok) of
                                      None \<Rightarrow> []
                                    | Some es \<Rightarrow> new_signatures (cursors st1 (token_key tok)) es) toks
            = map (\<lambda>tok. case signatures_of P (mint_address tok) of
                                      None \<Rightarrow> []
                                    | Some es \<Rightarrow> new_signatures (cursors st (token_key tok)) es) toks"
  proof (rule map_cong [OF refl])
    fix t assume "t \<in> set toks"
    then have "token_key t \<in> token_key ` set toks" by (rule imageI)
    then have "token_key t \<noteq> token_key tok" using Cons.prems(1) by auto
    then have "cursors st1 (token_key t) = cursors st (token_key t)" using g1(2) by simp
    then show "(case signatures_of P (mint_address t) of
                  None \<Rightarrow> []
                | Some es \<Rightarrow> new_signatures (cursors st1 (token_key t)) es)
             = (case signatures_of P (mint_address t) of
                  None \<Rightarrow> []
                | Some es \<Rightarrow> new_signatures (cursors st (token_key t)) es)"
      by (simp split: option.split)
  qed
  have "evs = concat (groups1 @ groups2)" using evs a(1) b(1) by simp
  moreover have "list_all2 (\<lambda>sg g. list_all (\<lambda>e. ev_tx_hash e = sg) g)
               (concat (map (\<lambda>tok. case signatures_of P (mint_address tok) of
                                      None \<Rightarrow> []
                                    | Some es \<Rightarrow> new_signatures (cursors st (token_key tok)) es)
                          (tok # toks))) (groups1 @ groups2)"
    using a(2) b(2) [unfolded same] by (simp add: list_all2_appendI)
  ultimately show ?case by blast
qed

lemma sol_events_emitted:
  "solana_emitted sol_cfg [sol_event_of ''sig4'', sol_event_of ''sig5'']
     = [sol_event_of ''sig4'', sol_event_of ''sig5'']"
  by (simp add: solana_emitted_def solana_emits_def solana_estimated_usd_def sol_cfg_def
        sol_event_of_def plain_runtime_def)

text \<open>
  C8, as the spec states it, has every poller emit the event of an earlier block before
  the event of a later one. The Polygon poller asks the provider for its transfers with
  \<open>"order": "desc"\<close> and emits them as they come: for an answer with a transfer in block
  11 followed by one in block 10, the event of block 11 is emitted first.
\<close>

theorem polygon_order_counterexample:
  "map fst (snd (poll_polygon_cycle pg_cfg pg_prov (Some 9))) = [11, 10]
   \<and> \<not> sorted (map fst (snd (poll_polygon_cycle pg_cfg pg_prov (Some 9))))"
proof -
  have l: "ascii_lower ''0xabc'' = ''0xabc''"
    by (simp add: ascii_lower_def ascii_lower_char_def Let_def)
  have e: "polygon_event pg_cfg (pg_transfer_in b h) \<noteq> None" for b h
    by (simp add: polygon_event_def contract_map_def pg_cfg_def pg_transfer_in_def l Let_def
          plain_runtime_def)
  have "map fst (polygon_emitted pg_cfg [pg_transfer_in 11 ''hB'', pg_transfer_in 10 ''hA''])
          = [11, 10]"
    unfolding polygon_emitted_order using e by (simp add: pg_transfer_in_def)
  then have "map fst (snd (poll_polygon_cycle pg_cfg pg_prov (Some 9))) = [11, 10]"
    by (simp add: poll_polygon_cycle_def pg_prov_def)
  then show ?thesis by simp
qed

text \<open>
  C8 as amended: in every poll cycle the Bitcoin and the Tron poller emit their events
  in ascending order of block height; the Polygon poller emits its events in the order
  in which the provider returns the transfers, which it requests newest first; and the
  Solana poller, in a poll that returns, emits the events mint after mint and, for one
  mint, in groups, one group per new signature, in the order of its new signatures,
  which are the signatures of the provider's newest-first answer that come before the
  cursor, reversed (oldest first).
\<close>

theorem emission_order:
  "sorted (map fst (snd (poll_bitcoin_cycle BC BP blast)))
   \<and> sorted (map fst (snd (poll_tron_cycle TC TP tlast)))
   \<and> map fst (polygon_emitted PC transfers)
       = map block_num (filter (\<lambda>tx. polygon_event PC tx \<noteq> None) transfers)
   \<and> (distinct (map token_key toks)
        \<and> fetch_solana_token_transfers SP toks st = (st', Inr evs) \<longrightarrow>
        (\<exists>groups. solana_emitted SC evs = concat groups
           \<and> list_all2 (\<lambda>sg g. list_all (\<lambda>e. ev_tx_hash e = sg) g)
               (concat (map (\<lambda>tok. case signatures_of SP (mint_address tok) of
                                      None \<Rightarrow> []
                                    | Some es \<Rightarrow> new_signatures (cursors st (token_key tok)) es)
                          toks)) groups))
   \<and> new_signatures last_sig es
       = rev (List.map_filter entry_signature
                (takeWhile (\<lambda>e. last_sig = None \<or> entry_signature e \<noteq> last_sig) es))"
proof -
  have sol: "\<exists>groups. solana_emitted SC evs = concat groups
           \<and> list_all2 (\<lambda>sg g. list_all (\<lambda>e. ev_tx_hash e = sg) g)
               (concat (map (\<lambda>tok. case signatures_of SP (mint_address tok) of
                                      None \<Rightarrow> []
                                    | Some es \<Rightarrow> new_signatures (cursors st (token_key tok)) es)
                          toks)) groups"
    if "distinct (map token_key toks)"
      and "fetch_solana_token_transfers SP toks st = (st', Inr evs)"
  proof -
    from fetch_groups [OF that] obtain groups where
      g: "evs = concat groups"
         "list_all2 (\<lambda>sg g. list_all (\<lambda>e. ev_tx_hash e = sg) g)
               (concat (map (\<lambda>tok. case signatures_of SP (mint_address tok) of
                                      None \<Rightarrow> []
                                    | Some es \<Rightarrow> new_signatures (cursors st (token_key tok)) es)
                          toks)) groups"
      by blast
    have "solana_emitted SC evs = concat (map (filter (solana_emits SC)) groups)"
      by (simp add: solana_emitted_def g(1) filter_concat)
    with filter_groups [OF g(2)] show ?thesis by blast
  qed
  have rv: "new_signatures last_sig es
       = rev (List.map_filter entry_signature
                (takeWhile (\<lambda>e. last_sig = None \<or> entry_signature e \<noteq> last_sig) es))"
    by (simp add: new_signatures_def collect_new_answer)
  show ?thesis
    using bitcoin_cycle_sorted tron_cycle_sorted polygon_emitted_order sol rv by blast
qed

theorem emission_order_witness:
  "distinct (map token_key [sol_tok])
   \<and> snd (fetch_solana_token_transfers sol_prov [sol_tok] sol_st0)
       = Inr [sol_event_of ''sig4'', sol_event_of ''sig5'']
   \<and> solana_emitted sol_cfg [sol_event_of ''sig4'', sol_event_of ''sig5'']
       = [sol_event_of ''sig4'', sol_event_of ''sig5'']
   \<and> (\<exists>groups. solana_emitted sol_cfg [sol_event_of ''sig4'', sol_event_of ''sig5''] = concat groups
         \<and> list_all2 (\<lambda>sg g. list_all (\<lambda>e. ev_tx_hash e = sg) g) [''sig4'', ''sig5''] groups)"
proof -
  have d: "distinct (map token_key [sol_tok])" by simp
  have n: "concat (map (\<lambda>tok. case signatures_of sol_prov (mint_address tok) of
                                 None \<Rightarrow> []
                               | Some es \<Rightarrow> new_signatures (cursors sol_st0 (token_key tok)) es)
                     [sol_tok])
             = [''sig4'', ''sig5'']"
    by (simp add: sol_prov_def sol_st0_def new_signatures_def)
  from emission_order [where toks = "[sol_tok]" and SP = sol_prov and st = sol_st0
         and SC = sol_cfg and evs = "[sol_event_of ''sig4'', sol_event_of ''sig5'']"
         and st' = "fst (fetch_solana_token_transfers sol_prov [sol_tok] sol_st0)"]
    d sol_poll_example
  have "\<exists>groups. solana_emitted sol_cfg [sol_event_of ''sig4'', sol_event_of ''sig5''] = concat groups
         \<and> list_all2 (\<lambda>sg g. list_all (\<lambda>e. ev_tx_hash e = sg) g) [''sig4'', ''sig5''] groups"
    unfolding n by simp
  then show ?thesis using d sol_poll_example sol_events_emitted by simp
qed

section \<open>Properties of the provider client\<close>

subsection \<open>C7: provider failures\<close>

lemma burst_admitted:
  "wait_if_needed clk_burst 0 25 (init_limiter clk_burst 20 100)
     = Admitted (world_of (wait_if_needed clk_burst 0 25 (init_limiter clk_burst 20 100)))"
  by (simp add: init_limiter_def can_request_def record_request_def clk_burst_def Let_def)

text \<open>
  C7, as the spec states it, has both calls return \<open>None\<close> for every status that is not
  2xx. Neither function looks at the status except to compare it with 429: a response
  with status 500 and a JSON body is handled like a successful one, so \<open>_rpc_call\<close>
  returns its \<open>result\<close> and \<open>_http_call\<close> returns the body.
\<close>

theorem status_500_counterexample:
  "fst (rpc_call clk_burst 0 25 (init_limiter clk_burst 20 100)
          (Response 500 (Some (JObj [(''result'', JStr ''0x10'')]))))
     = Returns (Some (JStr ''0x10''))
   \<and> fst (http_call clk_burst 0 25 (init_limiter clk_burst 20 100)
          (Response 500 (Some (JObj [(''Error'', JStr ''internal'')]))))
     = Returns (Some (JObj [(''Error'', JStr ''internal'')]))"
proof -
  obtain w' where a: "wait_if_needed clk_burst 0 25 (init_limiter clk_burst 20 100) = Admitted w'"
    using burst_admitted by blast
  show ?thesis
    unfolding rpc_call_def http_call_def a
    by (simp add: rpc_try_def http_try_def py_value_def)
qed

text \<open>
  C7 as amended: a provider-client call that the gateway admits returns and does not
  raise, whatever the response; \<open>_rpc_call\<close> returns \<open>None\<close> when the status is 429,
  when the body is not JSON or is not a JSON object, when the object carries an
  \<open>error\<close> key, and when the transport raises; \<open>_http_call\<close> returns \<open>None\<close> when the
  status is 429, when the body is not JSON, and when the transport raises. A status
  other than 429 is not looked at.
\<close>

theorem provider_call_failures:
  assumes "wait_if_needed clk fuel cu_cost w = Admitted w'"
  shows "has_returned (fst (rpc_call clk fuel cu_cost w r))
       \<and> has_returned (fst (http_call clk fuel cu_cost w r))
       \<and> (rpc_failure r \<longrightarrow> fst (rpc_call clk fuel cu_cost w r) = Returns None)
       \<and> (http_failure r \<longrightarrow> fst (http_call clk fuel cu_cost w r) = Returns None)"
proof -
  have r1: "has_returned (fst (rpc_call clk fuel cu_cost w r))"
    using assms by (simp add: rpc_call_def split: sum.splits)
  have r2: "has_returned (fst (http_call clk fuel cu_cost w r))"
    using assms by (simp add: http_call_def split: sum.splits)
  have f1: "fst (rpc_call clk fuel cu_cost w r) = Returns None" if "rpc_failure r"
    using assms that
    by (cases r rule: rpc_failure.cases)
       (auto simp: rpc_call_def rpc_try_def split: sum.splits option.splits json.splits)
  have f2: "fst (http_call clk fuel cu_cost w r) = Returns None" if "http_failure r"
    using assms that
    by (cases r rule: http_failure.cases)
       (auto simp: http_call_def http_try_def split: sum.splits)
  from r1 r2 f1 f2 show ?thesis by blast
qed

theorem provider_call_failures_witness:
  "rpc_failure (Response 200 (Some (JObj [(''error'', JStr ''limit'')])))
   \<and> http_failure (Response 429 (Some (JObj [])))
   \<and> fst (rpc_call clk_burst 0 25 (init_limiter clk_burst 20 100)
            (Response 200 (Some (JObj [(''error'', JStr ''limit'')])))) = Returns None
   \<and> fst (http_call clk_burst 0 25 (init_limiter clk_burst 20 100)
            (Response 429 (Some (JObj [])))) = Returns None"
proof -
  have a: "rpc_failure (Response 200 (Some (JObj [(''error'', JStr ''limit'')])))" by simp
  have b: "http_failure (Response 429 (Some (JObj [])))" by simp
  from provider_call_failures [OF burst_admitted,
         of "Response 200 (Some (JObj [(''error'', JStr ''limit'')]))"] a
  have c: "fst (rpc_call clk_burst 0 25 (init_limiter clk_burst 20 100)
            (Response 200 (Some (JObj [(''error'', JStr ''limit'')])))) = Returns None"
    by blast
  from provider_call_failures [OF burst_admitted, of "Response 429 (Some (JObj []))"] b
  have d: "fst (http_call clk_burst 0 25 (init_limiter clk_burst 20 100)
            (Response 429 (Some (JObj [])))) = Returns None"
    by blast
  from a b c d show ?thesis by blast
qed

section \<open>Properties of the persistence sink\<close>

lemma normalize_classification_range:
  "normalize_classification E v \<in> {''BUY'', ''SELL'', ''TRANSFER''}"
  by (simp add: normalize_classification_def Let_def)

lemma and_then_Inr: "and_then r f = Inr y \<Longrightarrow> \<exists>x. r = Inr x \<and> f x = Inr y"
  by (cases r) (simp_all add: and_then_def)

lemma mapped_classification:
  assumes "map_event_to_whale_row E event cd = Inr row"
  shows "\<exists>v. classification row = normalize_classification E v"
proof -
  obtain c conf score reason where rc: "raw_classification event cd = (c, conf, score, reason)"
    by (cases "raw_classification event cd") auto
  obtain wa ca where wc:
    "whale_and_counterparty (normalize_classification E c)
       (py_get event ''from'' (py_get event ''from_address'' (PStr [])))
       (py_get event ''to'' (py_get event ''to_address'' (PStr []))) cd = (wa, ca)"
    by (cases "whale_and_counterparty (normalize_classification E c)
       (py_get event ''from'' (py_get event ''from_address'' (PStr [])))
       (py_get event ''to'' (py_get event ''to_address'' (PStr []))) cd") auto
  have "classification row = normalize_classification E c"
    using assms unfolding map_event_to_whale_row_def Let_def rc wc prod.case
    by (auto dest!: and_then_Inr)
  then show ?thesis by blast
qed

subsection \<open>C10: rows without a hash or a symbol, and the classification\<close>

text \<open>
  C10: when the event maps to a row, the classification of the row is one of \<open>BUY\<close>,
  \<open>SELL\<close> and \<open>TRANSFER\<close>; and when the transaction hash of the row is empty (or
  otherwise false) or its token symbol is empty, \<open>store_transaction\<close> returns \<open>False\<close>
  and hands no row to the upsert.
\<close>

theorem store_requires_hash_and_symbol:
  assumes "map_event_to_whale_row E event cd = Inr row"
  shows "classification row \<in> {''BUY'', ''SELL'', ''TRANSFER''}
       \<and> (\<not> truthy (transaction_hash row) \<or> token_symbol row = []
            \<longrightarrow> store_transaction E client event cd = (False, []))"
proof -
  from mapped_classification [OF assms] obtain v where
    "classification row = normalize_classification E v" by blast
  then have c: "classification row \<in> {''BUY'', ''SELL'', ''TRANSFER''}"
    using normalize_classification_range [of E v] by simp
  have s: "store_transaction E client event cd = (False, [])"
    if "\<not> truthy (transaction_hash row) \<or> token_symbol row = []"
    using that assms by (auto simp: store_transaction_def)
  from c s show ?thesis by blast
qed

theorem store_requires_hash_and_symbol_witness:
  "(\<exists>row. map_event_to_whale_row sink_env0 event_no_hash None = Inr row
          \<and> \<not> truthy (transaction_hash row) \<and> token_symbol row = ''BONK''
          \<and> classification row = ''BUY'')
   \<and> store_transaction sink_env0 True event_no_hash None = (False, [])"
proof -
  have up: "ascii_upper ''probable_buy'' = ''PROBABLE_BUY''" "ascii_upper ''bonk'' = ''BONK''"
    by code_simp+
  have lo: "ascii_lower ''A'' = ''a''" "ascii_lower ''B'' = ''b''"
    "ascii_lower ''unknown'' = ''unknown''"
    by code_simp+
  have nc: "normalize_classification sink_env0 (PStr ''probable_buy'') = ''BUY''"
    by (simp add: normalize_classification_def py_str_of_def up Let_def sink_env0_def
          plain_runtime_def)
  have rc: "raw_classification event_no_hash None
              = (PStr ''probable_buy'', PNum 0, PNum 0, PStr [])"
    by (simp add: raw_classification_def has_data_def event_no_hash_def py_get_def)
  have wc: "whale_and_counterparty ''BUY'' (PStr ''A'') (PStr ''B'') None = (PStr ''B'', PStr ''A'')"
    by (simp add: whale_and_counterparty_def has_data_def Let_def)
  have g: "py_get event_no_hash ''tx_hash'' (py_get event_no_hash ''hash'' (PStr [])) = PStr []"
    "py_get event_no_hash ''from'' (py_get event_no_hash ''from_address'' (PStr [])) = PStr ''A''"
    "py_get event_no_hash ''to'' (py_get event_no_hash ''to_address'' (PStr [])) = PStr ''B''"
    "py_get event_no_hash ''symbol'' (py_get event_no_hash ''token_symbol'' (PStr [])) = PStr ''bonk''"
    "py_get event_no_hash ''blockchain'' (PStr ''unknown'') = PStr ''unknown''"
    "py_get event_no_hash ''estimated_usd'' (PNum 0) = PNum 0"
    "py_get event_no_hash ''usd_value'' (PNum 0) = PNum 750000"
    "py_get event_no_hash ''timestamp'' PNone = PNone"
    by (simp_all add: py_get_def event_no_hash_def)
  obtain row where m: "map_event_to_whale_row sink_env0 event_no_hash None = Inr row"
    and h: "transaction_hash row = PStr []"
    and sy: "token_symbol row = ''BONK''"
    and cl: "classification row = ''BUY''"
    unfolding map_event_to_whale_row_def Let_def g rc prod.case nc wc
    by (simp add: ts_iso_def g and_then_def py_or_def py_float_def str_lower_def str_upper_def
          lower_or_empty_def first_1000_def up lo has_data_def sink_env0_def plain_runtime_def)
  from store_requires_hash_and_symbol [OF m, of True] h
  have "store_transaction sink_env0 True event_no_hash None = (False, [])" by simp
  with m h sy cl show ?thesis by auto
qed

end
